theory Spec2Isabelle
  imports Main "HOL-Library.AList"
begin

section \<open>The pending package: data\<close>

text \<open>
  The Go package \<open>pending\<close> is a deferred-task scheduler. Its \<open>Manager\<close> is used from
  many goroutines at once, so the embedding is a labelled transition system: a state
  (the fields of the struct, the entries it allocated, the goroutines it started, the
  clock and the calls made on the telemetry handler) and one executable \<open>step\<close>
  function that performs a single labelled step of one goroutine, or returns \<open>None\<close>
  when that goroutine is blocked there. Every interleaving of the program is a list
  of labels.

  Primitives of Go and its standard library the source relies on, as modelled:
  \<^item> \<open>sync.RWMutex\<close>: the sections under \<open>mu.Lock()\<close> (Schedule, Cancel,
    deleteIfCurrent, the closing transition of Shutdown) are single steps that are
    enabled only while no goroutine holds the read lock; the section of the timer
    callback under \<open>mu.RLock()\<close> is several steps, and \<open>mu_readers\<close> counts its
    holders.
  \<^item> \<open>time.AfterFunc(d, f)\<close>: \<open>f\<close> is started in its own goroutine no earlier than
    \<open>d\<close> after the call; \<open>Stop()\<close> prevents a start that has not happened yet and
    does nothing otherwise.
  \<^item> \<open>sync.WaitGroup\<close>: \<open>wg.Go(f)\<close> adds one to the counter and starts \<open>f\<close> in a
    goroutine that calls \<open>Done\<close> when \<open>f\<close> returns; \<open>Wait\<close> returns when the counter
    is zero.
  \<^item> a buffered channel \<open>chan struct{}\<close> of capacity \<open>N\<close>: a send proceeds while
    fewer than \<open>N\<close> values are buffered; a goroutine parked in a \<open>select\<close> is woken
    by the first of its cases that becomes ready (a receive hands the freed place to
    the longest-parked sender; closing \<open>ctx.Done()\<close> wakes it on that case); a
    \<open>select\<close> that finds several cases ready picks any of them.
  \<^item> \<open>time.Duration\<close> and clock readings are integers (nanoseconds); no arithmetic
    of the source on them can overflow within the lifetime of a process.
\<close>

type_synonym addr = nat
type_synonym Duration = int
type_synonym Task = nat
type_synonym Strategy = int

text \<open>\<open>const ( StrategyBlock Strategy = iota; StrategyDrop )\<close>\<close>

definition StrategyBlock :: Strategy where
  "StrategyBlock = 0"

definition StrategyDrop :: Strategy where
  "StrategyDrop = 1"

text \<open>
  Values of Go's \<open>error\<close> that occur: the package's sentinel \<open>ErrTaskDropped\<close> and the
  two results of \<open>ctx.Err()\<close> of package context. \<open>nil\<close> is \<open>None\<close> of \<open>error option\<close>.
\<close>

datatype error = ErrTaskDropped | Canceled | DeadlineExceeded

text \<open>The five methods of interface \<open>TelemetryHandler\<close>; a value is one call.\<close>

datatype event =
    OnScheduled string Duration
  | OnRescheduled string
  | OnExecuted string Duration
  | OnCancelled string
  | OnFailed string error

datatype TelemetryHandler = nopLogger | Handler nat

text \<open>
  Where the callback given to \<open>time.AfterFunc\<close> stands. \<open>Armed\<close>: not started yet;
  \<open>Stopped\<close>: \<open>Stop()\<close> came first; \<open>AtRLock\<close>: started, before \<open>m.mu.RLock()\<close>;
  \<open>AtCheck\<close>: holds the read lock, before \<open>if m.isClosed\<close>; \<open>SawClosed\<close>: before
  \<open>cancel()\<close>; \<open>SawOpen\<close>: before \<open>m.wg.Go(...)\<close>; \<open>AbortUnlock\<close> and \<open>GoUnlock\<close>:
  before the deferred \<open>RUnlock\<close> on the two paths; \<open>Returned\<close>.
\<close>

datatype timer_pc =
  Armed | Stopped | AtRLock | AtCheck | SawClosed | SawOpen | AbortUnlock | GoUnlock | Returned

text \<open>
  Where the goroutine started by \<open>m.wg.Go\<close> stands. \<open>GNone\<close>: not started;
  \<open>GAcquire\<close>: before the \<open>select\<close> of \<open>acquireSlot\<close>; \<open>GWaiting\<close>: parked in the
  blocking \<open>select\<close>; \<open>GWokenDone\<close>: the case \<open>ctx.Done()\<close> was taken, before
  \<open>deleteIfCurrent\<close>; \<open>GDropLog\<close>: the \<open>default\<close> case was taken, before \<open>OnFailed\<close>;
  \<open>GDropDelete\<close>: before \<open>deleteIfCurrent\<close> on that path; \<open>GAdmitted\<close>: \<open>acquireSlot\<close>
  returned true, before \<open>start := time.Now()\<close>; \<open>GStarted\<close>: before \<open>task(ctx)\<close>;
  \<open>GRunning\<close>: inside the task body; \<open>GDelete\<close>: the body returned, before
  \<open>deleteIfCurrent\<close>; \<open>GLog\<close>: before \<open>OnExecuted\<close>; \<open>GRelease\<close>: before the deferred
  \<open>releaseSlot()\<close>; \<open>GCancel\<close>: before the deferred \<open>cancel()\<close>; \<open>GWgDone\<close>: before
  the \<open>Done\<close> of \<open>wg.Go\<close>; \<open>GFinished\<close>.
\<close>

datatype worker_pc =
    GNone | GAcquire | GWaiting | GWokenDone | GDropLog | GDropDelete
  | GAdmitted | GStarted | GRunning | GDelete | GLog | GRelease
  | GCancel | GWgDone | GFinished

text \<open>The goroutine \<open>go func() { m.wg.Wait(); close(m.shutdownDone) }()\<close>.\<close>

datatype drain_pc = DNone | DWait | DClose | DDone

text \<open>
  One \<open>*entry\<close> with what its closures captured: \<open>id\<close>, \<open>task\<close>, the context
  (\<open>cancelled\<close>: \<open>ctx.Done()\<close> is closed) and the local \<open>start\<close>. \<open>timer\<close> is the
  field \<open>e.timer\<close> together with the callback it starts. \<open>runs\<close> counts the calls of
  the task body.
\<close>

record entry =
  eid :: string
  task :: Task
  fire_at :: int
  timer :: timer_pc
  worker :: worker_pc
  cancelled :: bool
  start :: int
  runs :: nat

text \<open>
  The struct \<open>Manager\<close>. \<open>pending\<close> is the Go map as an association list read with
  \<open>map_of\<close> (Shutdown ranges over its keys); \<open>semaphore\<close> is the capacity of the
  channel (\<open>None\<close>: nil), \<open>sem_len\<close> the number of buffered values and \<open>sendq\<close> the
  goroutines parked on a send, oldest first. \<open>heap\<close> and \<open>nxt\<close> are the entries
  allocated so far, \<open>events\<close> the calls made on \<open>m.logger\<close>, oldest first.
\<close>

record Manager =
  mu_readers :: nat
  pending :: "(string \<times> addr) list"
  semaphore :: "nat option"
  sem_len :: nat
  sendq :: "addr list"
  strategy :: Strategy
  logger :: TelemetryHandler
  wg :: nat
  isClosed :: bool
  shutdownOnce :: bool
  shutdownDone :: bool
  drainer :: drain_pc
  heap :: "addr \<Rightarrow> entry"
  nxt :: addr
  clock :: int
  events :: "event list"

type_synonym Option = "Manager \<Rightarrow> Manager"

section \<open>Construction\<close>

definition null_entry :: entry where
  "null_entry = \<lparr>eid = [], task = 0, fire_at = 0, timer = Stopped, worker = GNone,
     cancelled = False, start = 0, runs = 0\<rparr>"

definition WithLimit :: "int \<Rightarrow> Strategy \<Rightarrow> Option" where
  "WithLimit limit strat = (\<lambda>m.
     if limit > 0 then m\<lparr>semaphore := Some (nat limit), strategy := strat\<rparr> else m)"

definition WithLogger :: "TelemetryHandler option \<Rightarrow> Option" where
  "WithLogger lg = (\<lambda>m. case lg of None \<Rightarrow> m | Some h \<Rightarrow> m\<lparr>logger := h\<rparr>)"

definition NewManager :: "Option list \<Rightarrow> Manager" where
  "NewManager opts = fold (\<lambda>opt m. opt m) opts
     \<lparr>mu_readers = 0, pending = [], semaphore = None, sem_len = 0, sendq = [],
      strategy = 0, logger = nopLogger, wg = 0, isClosed = False,
      shutdownOnce = False, shutdownDone = False, drainer = DNone,
      heap = (\<lambda>_. null_entry), nxt = 0, clock = 0, events = []\<rparr>"

section \<open>Operations\<close>

definition upd :: "addr \<Rightarrow> (entry \<Rightarrow> entry) \<Rightarrow> Manager \<Rightarrow> Manager" where
  "upd e f m = m\<lparr>heap := (heap m)(e := f (heap m e))\<rparr>"

definition emit :: "event \<Rightarrow> Manager \<Rightarrow> Manager" where
  "emit ev m = m\<lparr>events := events m @ [ev]\<rparr>"

text \<open>\<open>e.timer.Stop()\<close>\<close>

definition timer_Stop :: "addr \<Rightarrow> Manager \<Rightarrow> Manager" where
  "timer_Stop e m = upd e (\<lambda>x. if timer x = Armed then x\<lparr>timer := Stopped\<rparr> else x) m"

text \<open>
  \<open>e.cancel()\<close>: closes \<open>ctx.Done()\<close>; a goroutine parked in the \<open>select\<close> of
  \<open>acquireSlot\<close> is woken on that case and leaves the queue of senders.
\<close>

definition cancel :: "addr \<Rightarrow> Manager \<Rightarrow> Manager" where
  "cancel e m =
     (if worker (heap m e) = GWaiting
      then (upd e (\<lambda>x. x\<lparr>cancelled := True, worker := GWokenDone\<rparr>) m)
             \<lparr>sendq := removeAll e (sendq m)\<rparr>
      else upd e (\<lambda>x. x\<lparr>cancelled := True\<rparr>) m)"

text \<open>The body of \<open>Schedule\<close> between \<open>m.mu.Lock()\<close> and the deferred \<open>Unlock\<close>.\<close>

definition Schedule :: "string \<Rightarrow> Duration \<Rightarrow> Task \<Rightarrow> Manager \<Rightarrow> Manager" where
  "Schedule tid d tk m =
     (if isClosed m then m
      else
        let m1 = (case map_of (pending m) tid of
                    Some old \<Rightarrow> emit (OnRescheduled tid) (cancel old (timer_Stop old m))
                  | None \<Rightarrow> emit (OnScheduled tid d) m);
            e = nxt m1;
            m2 = m1\<lparr>heap := (heap m1)(e := \<lparr>eid = tid, task = tk, fire_at = clock m1 + d,
                        timer = Armed, worker = GNone, cancelled = False, start = 0,
                        runs = 0\<rparr>),
                    nxt := Suc e\<rparr>
        in m2\<lparr>pending := AList.update tid e (pending m2)\<rparr>)"

text \<open>The body of \<open>Cancel\<close> under the lock.\<close>

definition Cancel :: "string \<Rightarrow> Manager \<Rightarrow> Manager" where
  "Cancel tid m =
     (case map_of (pending m) tid of
        None \<Rightarrow> m
      | Some e \<Rightarrow>
          emit (OnCancelled tid)
            ((cancel e (timer_Stop e m))\<lparr>pending := AList.delete tid (pending m)\<rparr>))"

text \<open>The body of \<open>deleteIfCurrent\<close> under the lock; \<open>current == target\<close> compares pointers.\<close>

definition deleteIfCurrent :: "string \<Rightarrow> addr \<Rightarrow> Manager \<Rightarrow> Manager" where
  "deleteIfCurrent tid target m =
     (case map_of (pending m) tid of
        Some current \<Rightarrow>
          if current = target then m\<lparr>pending := AList.delete tid (pending m)\<rparr> else m
      | None \<Rightarrow> m)"

text \<open>
  The loop \<open>for id, e := range m.pending\<close> of Shutdown, over the keys in the order the
  runtime happens to choose.
\<close>

fun cancel_all :: "string list \<Rightarrow> Manager \<Rightarrow> Manager" where
  "cancel_all [] m = m"
| "cancel_all (tid # tids) m =
     cancel_all tids
       (case map_of (pending m) tid of
          None \<Rightarrow> m
        | Some e \<Rightarrow>
            emit (OnCancelled tid)
              ((cancel e (timer_Stop e m))\<lparr>pending := AList.delete tid (pending m)\<rparr>))"

text \<open>The function given to \<open>m.shutdownOnce.Do\<close>, run by the first caller only.\<close>

definition Shutdown_once :: "string list \<Rightarrow> Manager \<Rightarrow> Manager" where
  "Shutdown_once order m =
     (if shutdownOnce m then m
      else (cancel_all order (m\<lparr>isClosed := True\<rparr>))\<lparr>shutdownOnce := True, drainer := DWait\<rparr>)"

text \<open>
  The final \<open>select\<close> of Shutdown, when it resolves in state \<open>m\<close>: \<open>ctx_err\<close> is
  \<open>ctx.Err()\<close> at that moment (\<open>None\<close> while the context is not done), \<open>pick\<close> the
  choice of the runtime between two ready cases. The result is \<open>None\<close> while the call
  blocks, \<open>Some None\<close> for \<open>return nil\<close> and \<open>Some (Some err)\<close> for \<open>return ctx.Err()\<close>.
\<close>

definition Shutdown_select :: "Manager \<Rightarrow> error option \<Rightarrow> bool \<Rightarrow> error option option" where
  "Shutdown_select m ctx_err pick =
     (if shutdownDone m
      then (case ctx_err of
              None \<Rightarrow> Some None
            | Some er \<Rightarrow> if pick then Some None else Some (Some er))
      else (case ctx_err of
              None \<Rightarrow> None
            | Some er \<Rightarrow> Some (Some er)))"

text \<open>How the \<open>select\<close> statements of \<open>acquireSlot\<close> resolve for the goroutine of entry \<open>e\<close>.\<close>

datatype outcome = Unlimited | Sent | Default_case | Done_case | Park

definition acquireSlot :: "Manager \<Rightarrow> addr \<Rightarrow> bool \<Rightarrow> outcome" where
  "acquireSlot m e pick =
     (case semaphore m of
        None \<Rightarrow> Unlimited
      | Some cap \<Rightarrow>
          if strategy m = StrategyDrop
          then (if sem_len m < cap then Sent else Default_case)
          else if sem_len m < cap \<and> cancelled (heap m e)
               then (if pick then Sent else Done_case)
          else if sem_len m < cap then Sent
          else if cancelled (heap m e) then Done_case
          else Park)"

text \<open>
  \<open>releaseSlot\<close>: the receive \<open><-m.semaphore\<close> blocks on an empty channel, hands the
  place to the oldest parked sender if there is one, and frees it otherwise.
\<close>

definition releaseSlot :: "Manager \<Rightarrow> Manager option" where
  "releaseSlot m =
     (case semaphore m of
        None \<Rightarrow> Some m
      | Some cap \<Rightarrow>
          if sem_len m = 0 then None
          else (case sendq m of
                  [] \<Rightarrow> Some (m\<lparr>sem_len := sem_len m - 1\<rparr>)
                | w # ws \<Rightarrow> Some ((upd w (\<lambda>x. x\<lparr>worker := GAdmitted\<rparr>) m)\<lparr>sendq := ws\<rparr>)))"

section \<open>Steps\<close>

definition RUnlock :: "addr \<Rightarrow> Manager \<Rightarrow> Manager option" where
  "RUnlock e m =
     (if mu_readers m = 0 then None
      else Some ((upd e (\<lambda>x. x\<lparr>timer := Returned\<rparr>) m)\<lparr>mu_readers := mu_readers m - 1\<rparr>))"

text \<open>One step of the callback \<open>func() { m.mu.RLock(); defer m.mu.RUnlock(); ... }\<close> of entry \<open>e\<close>.\<close>

definition timer_step :: "addr \<Rightarrow> Manager \<Rightarrow> Manager option" where
  "timer_step e m =
     (case timer (heap m e) of
        Armed \<Rightarrow>
          if fire_at (heap m e) \<le> clock m
          then Some (upd e (\<lambda>x. x\<lparr>timer := AtRLock\<rparr>) m) else None
      | Stopped \<Rightarrow> None
      | AtRLock \<Rightarrow>
          Some ((upd e (\<lambda>x. x\<lparr>timer := AtCheck\<rparr>) m)\<lparr>mu_readers := Suc (mu_readers m)\<rparr>)
      | AtCheck \<Rightarrow>
          Some (upd e (\<lambda>x. x\<lparr>timer := (if isClosed m then SawClosed else SawOpen)\<rparr>) m)
      | SawClosed \<Rightarrow> Some (upd e (\<lambda>x. x\<lparr>timer := AbortUnlock\<rparr>) (cancel e m))
      | SawOpen \<Rightarrow>
          Some ((upd e (\<lambda>x. x\<lparr>timer := GoUnlock, worker := GAcquire\<rparr>) m)\<lparr>wg := Suc (wg m)\<rparr>)
      | AbortUnlock \<Rightarrow> RUnlock e m
      | GoUnlock \<Rightarrow> RUnlock e m
      | Returned \<Rightarrow> None)"

text \<open>
  One step of the goroutine
  \<open>func() { defer cancel(); if !m.acquireSlot(ctx, id, e) { return }; defer m.releaseSlot();
  start := time.Now(); task(ctx); m.deleteIfCurrent(id, e); m.logger.OnExecuted(id, time.Since(start)) }\<close>
  of entry \<open>e\<close>, followed by the \<open>Done\<close> of \<open>wg.Go\<close>.
\<close>

definition worker_step :: "addr \<Rightarrow> bool \<Rightarrow> Manager \<Rightarrow> Manager option" where
  "worker_step e pick m =
     (case worker (heap m e) of
        GNone \<Rightarrow> None
      | GAcquire \<Rightarrow>
          (case acquireSlot m e pick of
             Unlimited \<Rightarrow> Some (upd e (\<lambda>x. x\<lparr>worker := GAdmitted\<rparr>) m)
           | Sent \<Rightarrow> Some ((upd e (\<lambda>x. x\<lparr>worker := GAdmitted\<rparr>) m)\<lparr>sem_len := Suc (sem_len m)\<rparr>)
           | Default_case \<Rightarrow> Some (upd e (\<lambda>x. x\<lparr>worker := GDropLog\<rparr>) m)
           | Done_case \<Rightarrow> Some (upd e (\<lambda>x. x\<lparr>worker := GWokenDone\<rparr>) m)
           | Park \<Rightarrow> Some ((upd e (\<lambda>x. x\<lparr>worker := GWaiting\<rparr>) m)\<lparr>sendq := sendq m @ [e]\<rparr>))
      | GWaiting \<Rightarrow> None
      | GWokenDone \<Rightarrow>
          if mu_readers m = 0
          then Some (upd e (\<lambda>x. x\<lparr>worker := GCancel\<rparr>) (deleteIfCurrent (eid (heap m e)) e m))
          else None
      | GDropLog \<Rightarrow>
          Some (upd e (\<lambda>x. x\<lparr>worker := GDropDelete\<rparr>)
                  (emit (OnFailed (eid (heap m e)) ErrTaskDropped) m))
      | GDropDelete \<Rightarrow>
          if mu_readers m = 0
          then Some (upd e (\<lambda>x. x\<lparr>worker := GCancel\<rparr>) (deleteIfCurrent (eid (heap m e)) e m))
          else None
      | GAdmitted \<Rightarrow> Some (upd e (\<lambda>x. x\<lparr>start := clock m, worker := GStarted\<rparr>) m)
      | GStarted \<Rightarrow> Some (upd e (\<lambda>x. x\<lparr>runs := Suc (runs x), worker := GRunning\<rparr>) m)
      | GRunning \<Rightarrow> Some (upd e (\<lambda>x. x\<lparr>worker := GDelete\<rparr>) m)
      | GDelete \<Rightarrow>
          if mu_readers m = 0
          then Some (upd e (\<lambda>x. x\<lparr>worker := GLog\<rparr>) (deleteIfCurrent (eid (heap m e)) e m))
          else None
      | GLog \<Rightarrow>
          Some (upd e (\<lambda>x. x\<lparr>worker := GRelease\<rparr>)
                  (emit (OnExecuted (eid (heap m e)) (clock m - start (heap m e))) m))
      | GRelease \<Rightarrow> releaseSlot (upd e (\<lambda>x. x\<lparr>worker := GCancel\<rparr>) m)
      | GCancel \<Rightarrow> Some (upd e (\<lambda>x. x\<lparr>worker := GWgDone\<rparr>) (cancel e m))
      | GWgDone \<Rightarrow>
          if wg m = 0 then None
          else Some ((upd e (\<lambda>x. x\<lparr>worker := GFinished\<rparr>) m)\<lparr>wg := wg m - 1\<rparr>)
      | GFinished \<Rightarrow> None)"

text \<open>One step of the goroutine that waits for the drain.\<close>

definition drain_step :: "Manager \<Rightarrow> Manager option" where
  "drain_step m =
     (case drainer m of
        DNone \<Rightarrow> None
      | DWait \<Rightarrow> if wg m = 0 then Some (m\<lparr>drainer := DClose\<rparr>) else None
      | DClose \<Rightarrow> Some (m\<lparr>shutdownDone := True, drainer := DDone\<rparr>)
      | DDone \<Rightarrow> None)"

text \<open>
  The steps of the system. \<open>CallSchedule\<close>, \<open>CallCancel\<close> and \<open>CallShutdown\<close> are calls
  of the public methods by any goroutine (\<open>CallShutdown\<close> up to the final \<open>select\<close>,
  with the order in which the runtime ranges over the map); \<open>Tick\<close> lets time pass.
\<close>

datatype label =
    CallSchedule string Duration Task
  | CallCancel string
  | CallShutdown "string list"
  | Drain
  | Tick nat
  | Timer addr
  | Worker addr bool

definition step :: "label \<Rightarrow> Manager \<Rightarrow> Manager option" where
  "step l m =
     (case l of
        CallSchedule tid d tk \<Rightarrow> if mu_readers m = 0 then Some (Schedule tid d tk m) else None
      | CallCancel tid \<Rightarrow> if mu_readers m = 0 then Some (Cancel tid m) else None
      | CallShutdown order \<Rightarrow>
          if shutdownOnce m then Some m
          else if mu_readers m = 0 \<and> distinct order \<and> set order = set (map fst (pending m))
               then Some (Shutdown_once order m) else None
      | Drain \<Rightarrow> drain_step m
      | Tick n \<Rightarrow> Some (m\<lparr>clock := clock m + int n\<rparr>)
      | Timer e \<Rightarrow> timer_step e m
      | Worker e pick \<Rightarrow> worker_step e pick m)"

fun exec :: "label list \<Rightarrow> Manager \<Rightarrow> Manager option" where
  "exec [] m = Some m"
| "exec (l # ls) m = (case step l m of None \<Rightarrow> None | Some m' \<Rightarrow> exec ls m')"

section \<open>Reachable states and their invariants\<close>

text \<open>
  An option is a value returned by \<open>WithLimit\<close> or \<open>WithLogger\<close> (the fields of the
  struct are not exported, so no other option can be written outside the package).
  A reachable state is one that some interleaving produces from a new Manager.
\<close>

definition is_Option :: "Option \<Rightarrow> bool" where
  "is_Option opt =
     ((\<exists>limit strat. opt = WithLimit limit strat) \<or> (\<exists>lg. opt = WithLogger lg))"

inductive reachable :: "Manager \<Rightarrow> bool" where
  reach_start: "\<forall>opt \<in> set opts. is_Option opt \<Longrightarrow> reachable (NewManager opts)"
| reach_step: "reachable m \<Longrightarrow> step l m = Some m' \<Longrightarrow> reachable m'"

text \<open>The callback holds the read lock between \<open>RLock\<close> and the deferred \<open>RUnlock\<close>.\<close>

fun holds_rlock :: "timer_pc \<Rightarrow> bool" where
  "holds_rlock AtCheck = True"
| "holds_rlock SawClosed = True"
| "holds_rlock SawOpen = True"
| "holds_rlock AbortUnlock = True"
| "holds_rlock GoUnlock = True"
| "holds_rlock _ = False"

text \<open>A goroutine started by \<open>wg.Go\<close> that has not yet called \<open>Done\<close>.\<close>

fun inflight :: "worker_pc \<Rightarrow> bool" where
  "inflight GNone = False"
| "inflight GFinished = False"
| "inflight _ = True"

text \<open>The task body has not been called on the way to this point.\<close>

fun pre_run :: "worker_pc \<Rightarrow> bool" where
  "pre_run GRunning = False"
| "pre_run GDelete = False"
| "pre_run GLog = False"
| "pre_run GRelease = False"
| "pre_run GCancel = False"
| "pre_run GWgDone = False"
| "pre_run GFinished = False"
| "pre_run _ = True"

text \<open>Blocked for capacity, or on a path where \<open>acquireSlot\<close> returns false.\<close>

fun refused :: "worker_pc \<Rightarrow> bool" where
  "refused GWaiting = True"
| "refused GWokenDone = True"
| "refused GDropLog = True"
| "refused GDropDelete = True"
| "refused _ = False"

fun is_OnFailed :: "event \<Rightarrow> bool" where
  "is_OnFailed (OnFailed tid er) = True"
| "is_OnFailed _ = False"

text \<open>
  How far the goroutine of an entry has come; every step of the system keeps or
  raises it, and the task body is called between stage 4 and stage 5 only.
\<close>

fun stage :: "worker_pc \<Rightarrow> nat" where
  "stage GNone = 0"
| "stage GAcquire = 1"
| "stage GWaiting = 2"
| "stage GAdmitted = 3"
| "stage GStarted = 4"
| "stage GRunning = 5"
| "stage GDelete = 6"
| "stage GLog = 7"
| "stage GRelease = 8"
| "stage GDropLog = 9"
| "stage GDropDelete = 10"
| "stage GWokenDone = 11"
| "stage GCancel = 12"
| "stage GWgDone = 13"
| "stage GFinished = 14"

text \<open>A callback that will never start the goroutine of its entry.\<close>

fun spent :: "timer_pc \<Rightarrow> bool" where
  "spent Stopped = True"
| "spent SawClosed = True"
| "spent AbortUnlock = True"
| "spent Returned = True"
| "spent _ = False"

text \<open>The point the goroutine of entry \<open>e\<close> reaches by its next step.\<close>

definition worker_next :: "Manager \<Rightarrow> addr \<Rightarrow> bool \<Rightarrow> worker_pc" where
  "worker_next m e pick =
     (case worker (heap m e) of
        GAcquire \<Rightarrow>
          (case acquireSlot m e pick of
             Unlimited \<Rightarrow> GAdmitted | Sent \<Rightarrow> GAdmitted | Default_case \<Rightarrow> GDropLog
           | Done_case \<Rightarrow> GWokenDone | Park \<Rightarrow> GWaiting)
      | GWokenDone \<Rightarrow> GCancel
      | GDropLog \<Rightarrow> GDropDelete
      | GDropDelete \<Rightarrow> GCancel
      | GAdmitted \<Rightarrow> GStarted
      | GStarted \<Rightarrow> GRunning
      | GRunning \<Rightarrow> GDelete
      | GDelete \<Rightarrow> GLog
      | GLog \<Rightarrow> GRelease
      | GRelease \<Rightarrow> GCancel
      | GCancel \<Rightarrow> GWgDone
      | GWgDone \<Rightarrow> GFinished
      | w \<Rightarrow> w)"

text \<open>
  What \<open>timer.Stop()\<close> followed by \<open>cancel()\<close> may change in an entry: an armed timer
  is stopped, a parked goroutine is woken, the context is cancelled.
\<close>

definition retired :: "entry \<Rightarrow> entry \<Rightarrow> bool" where
  "retired a b =
     (eid b = eid a \<and> task b = task a \<and> runs b = runs a \<and> start b = start a \<and>
      fire_at b = fire_at a \<and>
      (timer b = timer a \<or> timer a = Armed \<and> timer b = Stopped) \<and>
      (worker b = worker a \<or> worker a = GWaiting \<and> worker b = GWokenDone) \<and>
      (cancelled a \<longrightarrow> cancelled b))"

text \<open>
  What any step of the system may change in an entry that is already allocated: the
  goroutine advances, the context stays cancelled once it is, a stopped timer stays
  stopped, a callback that did not start the goroutine never does, and the count of
  calls of the body rises only when the goroutine passes from before the call to
  after it.
\<close>

definition evolves :: "entry \<Rightarrow> entry \<Rightarrow> bool" where
  "evolves a b =
     (eid b = eid a \<and> task b = task a \<and> stage (worker a) \<le> stage (worker b) \<and>
      (cancelled a \<longrightarrow> cancelled b) \<and> runs a \<le> runs b \<and>
      (runs a < runs b \<longrightarrow> stage (worker a) \<le> 4 \<and> 5 \<le> stage (worker b)) \<and>
      (timer a = Stopped \<longrightarrow> timer b = Stopped) \<and>
      (worker a = GNone \<and> spent (timer a) \<longrightarrow> worker b = GNone \<and> spent (timer b)))"

text \<open>
  The invariant of the reachable states, in parts. \<open>inv_alloc\<close>: an address not yet
  allocated has neither timer nor goroutine. \<open>inv_mu\<close>: the reader count of the lock is
  the number of callbacks holding it. \<open>inv_wg\<close>: the WaitGroup counts the goroutines in
  flight. \<open>inv_open\<close>: a callback that saw the Manager open still finds it open.
  \<open>inv_drain\<close>: the flags of Shutdown agree with the goroutine that waits for the
  drain, which closes \<open>shutdownDone\<close> only at counter zero, and a closed Manager has an
  empty registry. \<open>inv_spawn\<close>: only a callback that called \<open>wg.Go\<close> has a goroutine.
  \<open>inv_runs\<close>: a task body is called at most once, and not before its goroutine
  reaches the call. \<open>inv_sendq\<close>: the queue of senders holds the parked goroutines,
  each once. \<open>inv_gate\<close>: without a semaphore nothing is parked or refused and
  \<open>OnFailed\<close> is never called. \<open>inv_pending\<close>: the registry maps an id to an allocated
  entry scheduled under that id. \<open>inv_fired\<close>: a callback that returned either started
  its goroutine or saw the Manager closed and cancelled its token.
\<close>

definition count_if :: "(entry \<Rightarrow> bool) \<Rightarrow> Manager \<Rightarrow> nat" where
  "count_if P m = length (filter (\<lambda>e. P (heap m e)) [0..<nxt m])"

definition inv_alloc :: "Manager \<Rightarrow> bool" where
  "inv_alloc m = (\<forall>e. nxt m \<le> e \<longrightarrow> timer (heap m e) = Stopped \<and> worker (heap m e) = GNone)"

definition inv_mu :: "Manager \<Rightarrow> bool" where
  "inv_mu m = (mu_readers m = count_if (\<lambda>x. holds_rlock (timer x)) m)"

definition inv_wg :: "Manager \<Rightarrow> bool" where
  "inv_wg m = (wg m = count_if (\<lambda>x. inflight (worker x)) m)"

definition inv_open :: "Manager \<Rightarrow> bool" where
  "inv_open m = (\<forall>e. timer (heap m e) = SawOpen \<longrightarrow> \<not> isClosed m)"

definition inv_drain :: "Manager \<Rightarrow> bool" where
  "inv_drain m =
     ((isClosed m = shutdownOnce m) \<and> (shutdownOnce m = (drainer m \<noteq> DNone)) \<and>
      (shutdownDone m = (drainer m = DDone)) \<and>
      (drainer m = DClose \<or> drainer m = DDone \<longrightarrow> wg m = 0) \<and>
      (isClosed m \<longrightarrow> pending m = []))"

definition inv_spawn :: "Manager \<Rightarrow> bool" where
  "inv_spawn m =
     (\<forall>e. worker (heap m e) \<noteq> GNone \<longrightarrow>
        timer (heap m e) = GoUnlock \<or> timer (heap m e) = Returned)"

definition inv_runs :: "Manager \<Rightarrow> bool" where
  "inv_runs m =
     (\<forall>e. runs (heap m e) \<le> 1 \<and> (pre_run (worker (heap m e)) \<longrightarrow> runs (heap m e) = 0))"

definition inv_sendq :: "Manager \<Rightarrow> bool" where
  "inv_sendq m =
     (distinct (sendq m) \<and> (\<forall>w \<in> set (sendq m). worker (heap m w) = GWaiting))"

definition inv_gate :: "Manager \<Rightarrow> bool" where
  "inv_gate m =
     (semaphore m = None \<longrightarrow>
        (\<forall>e. \<not> refused (worker (heap m e))) \<and> (\<forall>ev \<in> set (events m). \<not> is_OnFailed ev))"

definition inv_heap :: "Manager \<Rightarrow> bool" where
  "inv_heap m =
     (inv_alloc m \<and> inv_mu m \<and> inv_wg m \<and> inv_spawn m \<and> inv_runs m \<and> inv_sendq m \<and>
      inv_gate m)"

definition inv_pending :: "Manager \<Rightarrow> bool" where
  "inv_pending m =
     (\<forall>k e. map_of (pending m) k = Some e \<longrightarrow> e < nxt m \<and> eid (heap m e) = k)"

definition inv_fired :: "Manager \<Rightarrow> bool" where
  "inv_fired m =
     (\<forall>e. (timer (heap m e) = GoUnlock \<longrightarrow> worker (heap m e) \<noteq> GNone) \<and>
          (timer (heap m e) = SawClosed \<or> timer (heap m e) = AbortUnlock \<longrightarrow> isClosed m) \<and>
          ((timer (heap m e) = AbortUnlock \<or> timer (heap m e) = Returned) \<and>
             worker (heap m e) = GNone \<longrightarrow> cancelled (heap m e) \<and> isClosed m))"

definition inv_core :: "Manager \<Rightarrow> bool" where
  "inv_core m = (inv_heap m \<and> inv_open m \<and> inv_drain m)"

definition invariant :: "Manager \<Rightarrow> bool" where
  "invariant m = (inv_core m \<and> inv_pending m \<and> inv_fired m)"

section \<open>Scenarios\<close>

text \<open>The interleavings and states at which the properties below are exercised.\<close>

definition fire :: "addr \<Rightarrow> label list" where
  "fire e = [Timer e, Timer e, Timer e, Timer e, Timer e]"

definition unlimited_trace :: "label list" where
  "unlimited_trace = CallSchedule ''a'' 0 1 # fire 0 @ [Worker 0 True]"

definition closed_manager :: Manager where
  "closed_manager = the (exec [CallShutdown []] (NewManager []))"

definition run_body :: "addr \<Rightarrow> label list" where
  "run_body e = [Worker e True, Worker e True, Worker e True]"

definition finish :: "addr \<Rightarrow> label list" where
  "finish e = [Worker e True, Worker e True, Worker e True, Worker e True, Worker e True,
     Worker e True]"

definition stale_state :: Manager where
  "stale_state =
     the (exec ([CallSchedule ''z'' 1 1, Tick 1] @ fire 0 @ run_body 0 @
                [CallSchedule ''z'' 100 2, Worker 0 True])
            (NewManager []))"

definition busy_manager :: Manager where
  "busy_manager =
     the (exec ([CallSchedule ''retry'' 1 1, Tick 1] @ fire 0 @ run_body 0) (NewManager []))"

definition draining_manager :: Manager where
  "draining_manager = the (exec (CallShutdown [''retry''] # finish 0) busy_manager)"

definition drained_manager :: Manager where
  "drained_manager =
     (NewManager [])\<lparr>isClosed := True, shutdownOnce := True, shutdownDone := True,
        drainer := DDone\<rparr>"


definition occupy :: "label list" where
  "occupy = [CallSchedule ''a'' 0 1] @ fire 0 @ run_body 0 @ [CallSchedule ''b'' 0 2] @ fire 1"

definition drop_state :: Manager where
  "drop_state = the (exec occupy (NewManager [WithLimit 1 StrategyDrop]))"

definition waiting_state :: Manager where
  "waiting_state = the (exec (occupy @ [Worker 1 True]) (NewManager [WithLimit 1 StrategyBlock]))"

definition race_open_state :: Manager where
  "race_open_state =
     the (exec [CallSchedule ''r'' 0 1, Timer 0, Timer 0, Timer 0] (NewManager []))"

definition race_excluded_state :: Manager where
  "race_excluded_state =
     the (exec [CallSchedule ''r'' 0 1, Timer 0, CallShutdown [''r''], Timer 0, Timer 0,
                Timer 0, Timer 0] (NewManager []))"

definition admitted_state :: Manager where
  "admitted_state =
     the (exec ([CallSchedule ''a'' 0 1] @ fire 0 @ [Worker 0 True])
            (NewManager [WithLimit 1 StrategyDrop]))"

definition executed_trace :: "label list" where
  "executed_trace =
     [CallSchedule ''a'' 0 1] @ fire 0 @ run_body 0 @
     [Worker 0 True, Worker 0 True, Worker 0 True]"

definition executed_state :: Manager where
  "executed_state =
     \<lparr>mu_readers = 0, pending = [], semaphore = Some 1, sem_len = 1, sendq = [],
      strategy = StrategyDrop, logger = nopLogger, wg = 1, isClosed = False,
      shutdownOnce = False, shutdownDone = False, drainer = DNone,
      heap = (\<lambda>_. null_entry)
        (0 := \<lparr>eid = ''a'', task = 1, fire_at = 0, timer = Returned, worker = GRelease,
               cancelled = False, start = 0, runs = 1\<rparr>),
      nxt = 1, clock = 0, events = [OnScheduled ''a'' 0, OnExecuted ''a'' 0]\<rparr>"




section \<open>Counting entries and reading the primitives\<close>

lemma filter_upd_notin:
  "e \<notin> set xs \<Longrightarrow> filter (\<lambda>x. P ((h(e := v)) x)) xs = filter (\<lambda>x. P (h x)) xs"
  by (induction xs) auto

lemma length_filter_upd:
  "distinct xs \<Longrightarrow> e \<in> set xs \<Longrightarrow>
   length (filter (\<lambda>x. P ((h(e := v)) x)) xs) + (if P (h e) then 1 else 0)
   = length (filter (\<lambda>x. P (h x)) xs) + (if P v then 1 else 0)"
proof (induction xs)
  case Nil
  then show ?case by simp
next
  case (Cons a xs)
  show ?case
  proof (cases "a = e")
    case True
    with Cons.prems have "e \<notin> set xs" by simp
    then have "filter (\<lambda>x. P ((h(e := v)) x)) xs = filter (\<lambda>x. P (h x)) xs"
      by (rule filter_upd_notin)
    then show ?thesis using True by (simp add: fun_upd_same del: fun_upd_apply)
  next
    case False
    with Cons show ?thesis by auto
  qed
qed

lemma count_if_one:
  assumes "e < nxt m" "nxt m' = nxt m"
    and "\<And>x. x \<noteq> e \<Longrightarrow> P (heap m' x) = P (heap m x)"
  shows "count_if P m' + (if P (heap m e) then 1 else 0)
         = count_if P m + (if P (heap m' e) then 1 else 0)"
proof -
  have "filter (\<lambda>x. P (heap m' x)) [0..<nxt m]
        = filter (\<lambda>x. P (((heap m)(e := heap m' e)) x)) [0..<nxt m]"
    by (rule filter_cong) (auto simp: assms(3))
  then show ?thesis
    using length_filter_upd [of "[0..<nxt m]" e P "heap m" "heap m' e"] assms(1,2)
    by (simp add: count_if_def)
qed

lemma count_if_same:
  assumes "nxt m' = nxt m" "\<And>x. P (heap m' x) = P (heap m x)"
  shows "count_if P m' = count_if P m"
  using assms by (simp add: count_if_def)

lemma count_if_zero:
  "count_if P m = 0 \<Longrightarrow> e < nxt m \<Longrightarrow> \<not> P (heap m e)"
  by (auto simp: count_if_def filter_empty_conv)

lemma count_if_pos:
  "e < nxt m \<Longrightarrow> P (heap m e) \<Longrightarrow> 0 < count_if P m"
  using count_if_zero [of P m e] by auto

lemma count_if_alloc:
  assumes "nxt m' = Suc (nxt m)" "\<And>x. x < nxt m \<Longrightarrow> P (heap m' x) = P (heap m x)"
  shows "count_if P m' = count_if P m + (if P (heap m' (nxt m)) then 1 else 0)"
proof -
  have "filter (\<lambda>e. P (heap m' e)) [0..<nxt m] = filter (\<lambda>e. P (heap m e)) [0..<nxt m]"
    by (rule filter_cong) (auto simp: assms(2))
  then show ?thesis by (simp add: count_if_def assms(1))
qed

lemma upd_fields [simp]:
  "mu_readers (upd e f m) = mu_readers m"
  "pending (upd e f m) = pending m"
  "semaphore (upd e f m) = semaphore m"
  "sem_len (upd e f m) = sem_len m"
  "sendq (upd e f m) = sendq m"
  "strategy (upd e f m) = strategy m"
  "logger (upd e f m) = logger m"
  "wg (upd e f m) = wg m"
  "isClosed (upd e f m) = isClosed m"
  "shutdownOnce (upd e f m) = shutdownOnce m"
  "shutdownDone (upd e f m) = shutdownDone m"
  "drainer (upd e f m) = drainer m"
  "nxt (upd e f m) = nxt m"
  "clock (upd e f m) = clock m"
  "events (upd e f m) = events m"
  by (simp_all add: upd_def)

lemma heap_upd [simp]: "heap (upd e f m) = (heap m)(e := f (heap m e))"
  by (simp add: upd_def)

lemma emit_fields [simp]:
  "mu_readers (emit ev m) = mu_readers m"
  "pending (emit ev m) = pending m"
  "semaphore (emit ev m) = semaphore m"
  "sem_len (emit ev m) = sem_len m"
  "sendq (emit ev m) = sendq m"
  "strategy (emit ev m) = strategy m"
  "logger (emit ev m) = logger m"
  "wg (emit ev m) = wg m"
  "isClosed (emit ev m) = isClosed m"
  "shutdownOnce (emit ev m) = shutdownOnce m"
  "shutdownDone (emit ev m) = shutdownDone m"
  "drainer (emit ev m) = drainer m"
  "heap (emit ev m) = heap m"
  "nxt (emit ev m) = nxt m"
  "clock (emit ev m) = clock m"
  by (simp_all add: emit_def)

lemma events_emit [simp]: "events (emit ev m) = events m @ [ev]"
  by (simp add: emit_def)

lemma timer_Stop_fields [simp]:
  "mu_readers (timer_Stop e m) = mu_readers m"
  "pending (timer_Stop e m) = pending m"
  "semaphore (timer_Stop e m) = semaphore m"
  "sem_len (timer_Stop e m) = sem_len m"
  "sendq (timer_Stop e m) = sendq m"
  "strategy (timer_Stop e m) = strategy m"
  "logger (timer_Stop e m) = logger m"
  "wg (timer_Stop e m) = wg m"
  "isClosed (timer_Stop e m) = isClosed m"
  "shutdownOnce (timer_Stop e m) = shutdownOnce m"
  "shutdownDone (timer_Stop e m) = shutdownDone m"
  "drainer (timer_Stop e m) = drainer m"
  "nxt (timer_Stop e m) = nxt m"
  "clock (timer_Stop e m) = clock m"
  "events (timer_Stop e m) = events m"
  by (simp_all add: timer_Stop_def)

lemma timer_Stop_entry [simp]:
  "eid (heap (timer_Stop e m) x) = eid (heap m x)"
  "task (heap (timer_Stop e m) x) = task (heap m x)"
  "fire_at (heap (timer_Stop e m) x) = fire_at (heap m x)"
  "worker (heap (timer_Stop e m) x) = worker (heap m x)"
  "cancelled (heap (timer_Stop e m) x) = cancelled (heap m x)"
  "start (heap (timer_Stop e m) x) = start (heap m x)"
  "runs (heap (timer_Stop e m) x) = runs (heap m x)"
  by (simp_all add: timer_Stop_def)

lemma timer_timer_Stop [simp]:
  "timer (heap (timer_Stop e m) x)
   = (if x = e \<and> timer (heap m e) = Armed then Stopped else timer (heap m x))"
  by (simp add: timer_Stop_def)

lemma cancel_fields [simp]:
  "mu_readers (cancel e m) = mu_readers m"
  "pending (cancel e m) = pending m"
  "semaphore (cancel e m) = semaphore m"
  "sem_len (cancel e m) = sem_len m"
  "strategy (cancel e m) = strategy m"
  "logger (cancel e m) = logger m"
  "wg (cancel e m) = wg m"
  "isClosed (cancel e m) = isClosed m"
  "shutdownOnce (cancel e m) = shutdownOnce m"
  "shutdownDone (cancel e m) = shutdownDone m"
  "drainer (cancel e m) = drainer m"
  "nxt (cancel e m) = nxt m"
  "clock (cancel e m) = clock m"
  "events (cancel e m) = events m"
  by (simp_all add: cancel_def)

lemma cancel_entry [simp]:
  "eid (heap (cancel e m) x) = eid (heap m x)"
  "task (heap (cancel e m) x) = task (heap m x)"
  "fire_at (heap (cancel e m) x) = fire_at (heap m x)"
  "timer (heap (cancel e m) x) = timer (heap m x)"
  "start (heap (cancel e m) x) = start (heap m x)"
  "runs (heap (cancel e m) x) = runs (heap m x)"
  by (simp_all add: cancel_def)

lemma worker_cancel [simp]:
  "worker (heap (cancel e m) x)
   = (if x = e \<and> worker (heap m e) = GWaiting then GWokenDone else worker (heap m x))"
  by (simp add: cancel_def)

lemma cancelled_cancel [simp]:
  "cancelled (heap (cancel e m) x) = (x = e \<or> cancelled (heap m x))"
  by (auto simp: cancel_def)

lemma sendq_cancel [simp]:
  "sendq (cancel e m)
   = (if worker (heap m e) = GWaiting then removeAll e (sendq m) else sendq m)"
  by (simp add: cancel_def)

lemma deleteIfCurrent_fields [simp]:
  "mu_readers (deleteIfCurrent tid target m) = mu_readers m"
  "semaphore (deleteIfCurrent tid target m) = semaphore m"
  "sem_len (deleteIfCurrent tid target m) = sem_len m"
  "sendq (deleteIfCurrent tid target m) = sendq m"
  "strategy (deleteIfCurrent tid target m) = strategy m"
  "logger (deleteIfCurrent tid target m) = logger m"
  "wg (deleteIfCurrent tid target m) = wg m"
  "isClosed (deleteIfCurrent tid target m) = isClosed m"
  "shutdownOnce (deleteIfCurrent tid target m) = shutdownOnce m"
  "shutdownDone (deleteIfCurrent tid target m) = shutdownDone m"
  "drainer (deleteIfCurrent tid target m) = drainer m"
  "heap (deleteIfCurrent tid target m) = heap m"
  "nxt (deleteIfCurrent tid target m) = nxt m"
  "clock (deleteIfCurrent tid target m) = clock m"
  "events (deleteIfCurrent tid target m) = events m"
  by (simp_all add: deleteIfCurrent_def split: option.splits)

lemma pending_deleteIfCurrent [simp]:
  "pending (deleteIfCurrent tid target m)
   = (if map_of (pending m) tid = Some target then AList.delete tid (pending m) else pending m)"
  by (simp add: deleteIfCurrent_def split: option.splits)

lemma inv_spawnD:
  "inv_spawn m \<Longrightarrow> worker (heap m e) \<noteq> GNone \<Longrightarrow>
   timer (heap m e) = GoUnlock \<or> timer (heap m e) = Returned"
  unfolding inv_spawn_def by blast

lemma inv_runsD:
  "inv_runs m \<Longrightarrow> runs (heap m e) \<le> 1 \<and> (pre_run (worker (heap m e)) \<longrightarrow> runs (heap m e) = 0)"
  unfolding inv_runs_def by blast

lemma inv_openD: "inv_open m \<Longrightarrow> timer (heap m e) = SawOpen \<Longrightarrow> \<not> isClosed m"
  unfolding inv_open_def by blast

lemma inv_sendqD: "inv_sendq m \<Longrightarrow> w \<in> set (sendq m) \<Longrightarrow> worker (heap m w) = GWaiting"
  unfolding inv_sendq_def by blast

lemma inv_allocD:
  "inv_alloc m \<Longrightarrow> nxt m \<le> e \<Longrightarrow> timer (heap m e) = Stopped \<and> worker (heap m e) = GNone"
  unfolding inv_alloc_def by blast

lemma inv_gateD:
  "inv_gate m \<Longrightarrow> semaphore m = None \<Longrightarrow> \<not> refused (worker (heap m e))"
  unfolding inv_gate_def by blast

subsection \<open>Steps of the timer callback\<close>

lemma timer_step_lt:
  assumes "inv_alloc m" "timer_step e m = Some m'"
  shows "e < nxt m"
proof (rule ccontr)
  assume "\<not> e < nxt m"
  then have "timer (heap m e) = Stopped" using inv_allocD [OF assms(1), of e] by simp
  with assms(2) show False by (simp add: timer_step_def)
qed

lemma timer_step_idle:
  assumes "inv_spawn m" "timer_step e m = Some m'"
  shows "timer (heap m e) = GoUnlock \<or> worker (heap m e) = GNone"
proof -
  have "timer (heap m e) \<noteq> Returned"
    using assms(2) by (auto simp: timer_step_def)
  then show ?thesis using inv_spawnD [OF assms(1), of e] by blast
qed

lemmas timer_splits = timer_pc.splits if_splits

lemma timer_step_frame:
  assumes "timer_step e m = Some m'"
  shows "nxt m' = nxt m" "x \<noteq> e \<Longrightarrow> heap m' x = heap m x"
    "pending m' = pending m" "semaphore m' = semaphore m" "sem_len m' = sem_len m"
    "strategy m' = strategy m" "isClosed m' = isClosed m" "shutdownOnce m' = shutdownOnce m"
    "shutdownDone m' = shutdownDone m" "drainer m' = drainer m" "clock m' = clock m"
    "events m' = events m" "runs (heap m' x) = runs (heap m x)"
    "eid (heap m' x) = eid (heap m x)"
  using assms
  by (auto simp: timer_step_def RUnlock_def cancel_def split: timer_splits)

lemma timer_step_worker:
  assumes "inv_spawn m" "timer_step e m = Some m'"
  shows "worker (heap m' x)
         = (if x = e \<and> timer (heap m e) = SawOpen then GAcquire else worker (heap m x))"
    and "sendq m' = sendq m"
  using assms(2) timer_step_idle [OF assms]
  by (auto simp: timer_step_def RUnlock_def split: timer_splits)

lemma timer_step_timer:
  assumes "timer_step e m = Some m'"
  shows "timer (heap m' e)
         = (case timer (heap m e) of
              Armed \<Rightarrow> AtRLock | AtRLock \<Rightarrow> AtCheck
            | AtCheck \<Rightarrow> (if isClosed m then SawClosed else SawOpen)
            | SawClosed \<Rightarrow> AbortUnlock | SawOpen \<Rightarrow> GoUnlock
            | AbortUnlock \<Rightarrow> Returned | GoUnlock \<Rightarrow> Returned | t \<Rightarrow> t)"
    and "mu_readers m'
         = (if timer (heap m e) = AtRLock then Suc (mu_readers m)
            else if timer (heap m e) = AbortUnlock \<or> timer (heap m e) = GoUnlock
            then mu_readers m - 1 else mu_readers m)"
    and "timer (heap m e) = AbortUnlock \<or> timer (heap m e) = GoUnlock \<Longrightarrow> 0 < mu_readers m"
    and "wg m' = (if timer (heap m e) = SawOpen then Suc (wg m) else wg m)"
  using assms
  by (auto simp: timer_step_def RUnlock_def split: timer_splits)

lemma timer_step_alloc:
  assumes "inv_alloc m" "inv_spawn m" "timer_step e m = Some m'"
  shows "inv_alloc m'"
  unfolding inv_alloc_def
proof (intro allI impI)
  fix x assume x: "nxt m' \<le> x"
  have lt: "e < nxt m" using assms(1,3) by (rule timer_step_lt)
  note f = timer_step_frame [OF assms(3)]
  have ne: "x \<noteq> e" using lt x f(1) by simp
  show "timer (heap m' x) = Stopped \<and> worker (heap m' x) = GNone"
    using inv_allocD [OF assms(1), of x] x ne f(1) f(2) [OF ne] by simp
qed

lemma timer_step_open:
  assumes "inv_open m" "timer_step e m = Some m'"
  shows "inv_open m'"
  unfolding inv_open_def
proof (intro allI impI)
  fix x assume x: "timer (heap m' x) = SawOpen"
  note f = timer_step_frame [OF assms(2)]
  show "\<not> isClosed m'"
  proof (cases "x = e")
    case True
    then show ?thesis
      using x timer_step_timer(1) [OF assms(2)] f(7) inv_openD [OF assms(1), of e]
      by (auto split: timer_splits)
  next
    case False
    then show ?thesis using x f(2) [OF False] f(7) inv_openD [OF assms(1), of x] by simp
  qed
qed

lemma timer_step_spawn:
  assumes "inv_spawn m" "timer_step e m = Some m'"
  shows "inv_spawn m'"
  unfolding inv_spawn_def
proof (intro allI impI)
  fix x assume x: "worker (heap m' x) \<noteq> GNone"
  note f = timer_step_frame [OF assms(2)]
  show "timer (heap m' x) = GoUnlock \<or> timer (heap m' x) = Returned"
  proof (cases "x = e")
    case True
    then show ?thesis
      using x timer_step_timer(1) [OF assms(2)] timer_step_worker(1) [OF assms, of e]
        timer_step_idle [OF assms]
      by (auto split: timer_splits)
  next
    case False
    then show ?thesis using x f(2) [OF False] inv_spawnD [OF assms(1), of x] by simp
  qed
qed

lemma timer_step_runs:
  assumes "inv_runs m" "inv_spawn m" "timer_step e m = Some m'"
  shows "inv_runs m'"
  unfolding inv_runs_def
proof (intro allI)
  fix x
  note f = timer_step_frame [OF assms(3)]
  show "runs (heap m' x) \<le> 1 \<and> (pre_run (worker (heap m' x)) \<longrightarrow> runs (heap m' x) = 0)"
    using inv_runsD [OF assms(1), of x] f(13) [of x] timer_step_worker(1) [OF assms(2,3), of x]
      timer_step_idle [OF assms(2,3)]
    by (auto split: if_splits)
qed

lemma timer_step_sendq:
  assumes "inv_sendq m" "inv_spawn m" "timer_step e m = Some m'"
  shows "inv_sendq m'"
proof -
  note w = timer_step_worker [OF assms(2,3)]
  have "worker (heap m' x) = GWaiting" if "x \<in> set (sendq m)" for x
    using inv_sendqD [OF assms(1) that] w(1) [of x] timer_step_idle [OF assms(2,3)]
    by (auto split: if_splits)
  then show ?thesis using assms(1) w(2) by (simp add: inv_sendq_def)
qed

lemma timer_step_gate:
  assumes "inv_gate m" "inv_spawn m" "timer_step e m = Some m'"
  shows "inv_gate m'"
proof -
  note f = timer_step_frame [OF assms(3)]
  have "\<not> refused (worker (heap m' x))" if "semaphore m = None" for x
    using inv_gateD [OF assms(1) that, of x] timer_step_worker(1) [OF assms(2,3), of x]
    by (auto split: if_splits)
  then show ?thesis using assms(1) f(4) f(12) by (simp add: inv_gate_def)
qed

lemma timer_step_drain:
  assumes "inv_drain m" "inv_open m" "timer_step e m = Some m'"
  shows "inv_drain m'"
proof -
  note f = timer_step_frame [OF assms(3)]
  have "wg m' = wg m" if "isClosed m"
    using that timer_step_timer(4) [OF assms(3)] inv_openD [OF assms(2), of e] by auto
  then show ?thesis
    using assms(1) f by (auto simp: inv_drain_def)
qed

lemma timer_step_mu:
  assumes "inv_mu m" "inv_alloc m" "timer_step e m = Some m'"
  shows "inv_mu m'"
proof -
  have lt: "e < nxt m" using assms(2,3) by (rule timer_step_lt)
  note f = timer_step_frame [OF assms(3)]
  have "count_if (\<lambda>x. holds_rlock (timer x)) m' + (if holds_rlock (timer (heap m e)) then 1 else 0)
        = count_if (\<lambda>x. holds_rlock (timer x)) m + (if holds_rlock (timer (heap m' e)) then 1 else 0)"
    by (rule count_if_one [OF lt f(1)]) (simp add: f(2))
  then show ?thesis
    using assms(1) timer_step_timer(1,2,3) [OF assms(3)] assms(3)
    by (auto simp: inv_mu_def timer_step_def split: timer_splits)
qed

lemma timer_step_wg:
  assumes "inv_wg m" "inv_alloc m" "inv_spawn m" "timer_step e m = Some m'"
  shows "inv_wg m'"
proof -
  have lt: "e < nxt m" using assms(2,4) by (rule timer_step_lt)
  note f = timer_step_frame [OF assms(4)]
  have "count_if (\<lambda>x. inflight (worker x)) m' + (if inflight (worker (heap m e)) then 1 else 0)
        = count_if (\<lambda>x. inflight (worker x)) m + (if inflight (worker (heap m' e)) then 1 else 0)"
    by (rule count_if_one [OF lt f(1)]) (simp add: f(2))
  then show ?thesis
    using assms(1) timer_step_timer(4) [OF assms(4)] timer_step_worker(1) [OF assms(3,4), of e]
      timer_step_idle [OF assms(3,4)]
    by (auto simp: inv_wg_def split: if_splits)
qed

subsection \<open>Steps of the worker goroutine\<close>

lemmas worker_splits = worker_pc.splits outcome.splits option.splits list.splits if_splits

lemma worker_step_lt:
  assumes "inv_alloc m" "worker_step e p m = Some m'"
  shows "e < nxt m"
proof (rule ccontr)
  assume "\<not> e < nxt m"
  then have "worker (heap m e) = GNone" using inv_allocD [OF assms(1), of e] by simp
  with assms(2) show False by (simp add: worker_step_def)
qed

lemma worker_step_enabled:
  assumes "worker_step e p m = Some m'"
  shows "worker (heap m e) \<noteq> GNone" "worker (heap m e) \<noteq> GWaiting"
    "worker (heap m e) \<noteq> GFinished"
  using assms by (auto simp: worker_step_def)

lemma worker_step_frame:
  assumes "worker_step e p m = Some m'"
  shows "nxt m' = nxt m" "mu_readers m' = mu_readers m" "semaphore m' = semaphore m"
    "strategy m' = strategy m" "isClosed m' = isClosed m" "shutdownOnce m' = shutdownOnce m"
    "shutdownDone m' = shutdownDone m" "drainer m' = drainer m" "clock m' = clock m"
    "timer (heap m' x) = timer (heap m x)" "eid (heap m' x) = eid (heap m x)"
    "wg m' = (if worker (heap m e) = GWgDone then wg m - 1 else wg m)"
    "worker (heap m e) = GWgDone \<Longrightarrow> 0 < wg m"
    "pending m' = pending m \<or>
     (map_of (pending m) (eid (heap m e)) = Some e \<and>
      pending m' = AList.delete (eid (heap m e)) (pending m))"
    "events m' = events m \<or>
     (worker (heap m e) = GDropLog \<and>
      events m' = events m @ [OnFailed (eid (heap m e)) ErrTaskDropped]) \<or>
     (worker (heap m e) = GLog \<and>
      events m' = events m @ [OnExecuted (eid (heap m e)) (clock m - start (heap m e))])"
  using assms
  by (auto simp: worker_step_def releaseSlot_def split: worker_splits)

lemma worker_step_runs:
  assumes "worker_step e p m = Some m'"
  shows "runs (heap m' x)
         = (if x = e \<and> worker (heap m e) = GStarted then Suc (runs (heap m x))
            else runs (heap m x))"
  using assms
  by (auto simp: worker_step_def releaseSlot_def split: worker_splits)

lemma worker_step_self:
  assumes "inv_sendq m" "worker_step e p m = Some m'"
  shows "worker (heap m' e) = worker_next m e p"
proof -
  have "e \<notin> set (sendq m)"
    using inv_sendqD [OF assms(1), of e] worker_step_enabled(2) [OF assms(2)] by blast
  then show ?thesis
    using assms(2)
    by (auto simp: worker_step_def worker_next_def releaseSlot_def split: worker_splits)
qed

lemma worker_step_other:
  assumes "worker_step e p m = Some m'" "x \<noteq> e"
  shows "heap m' x = heap m x \<or>
         (worker (heap m e) = GRelease \<and> x \<in> set (sendq m) \<and>
          heap m' x = (heap m x)\<lparr>worker := GAdmitted\<rparr>)"
  using assms
  by (auto simp: worker_step_def releaseSlot_def cancel_def split: worker_splits)

lemma worker_step_sendq:
  assumes "worker_step e p m = Some m'"
  shows "sendq m' = sendq m \<and> (\<forall>x. x \<noteq> e \<longrightarrow> heap m' x = heap m x) \<or>
         (worker (heap m e) = GAcquire \<and> worker (heap m' e) = GWaiting \<and>
          sendq m' = sendq m @ [e] \<and> (\<forall>x. x \<noteq> e \<longrightarrow> heap m' x = heap m x)) \<or>
         (worker (heap m e) = GCancel \<and> sendq m' = sendq m) \<or>
         (worker (heap m e) = GRelease \<and>
          (\<exists>w. sendq m = w # sendq m' \<and>
             (\<forall>x. x \<noteq> e \<longrightarrow> x \<noteq> w \<longrightarrow> heap m' x = heap m x)))"
  using assms
  by (auto simp: worker_step_def releaseSlot_def cancel_def split: worker_splits)

lemma worker_step_other_pc:
  assumes "inv_sendq m" "worker_step e p m = Some m'" "x \<noteq> e"
  shows "worker (heap m' x) = worker (heap m x) \<or>
         (worker (heap m x) = GWaiting \<and> worker (heap m' x) = GAdmitted)"
    and "runs (heap m' x) = runs (heap m x)"
  using worker_step_other [OF assms(2,3)] inv_sendqD [OF assms(1), of x] by auto

lemma worker_step_alloc:
  assumes "inv_alloc m" "inv_sendq m" "worker_step e p m = Some m'"
  shows "inv_alloc m'"
  unfolding inv_alloc_def
proof (intro allI impI)
  fix x assume x: "nxt m' \<le> x"
  have lt: "e < nxt m" using assms(1,3) by (rule worker_step_lt)
  note f = worker_step_frame [OF assms(3)]
  have ne: "x \<noteq> e" using lt x f(1) by simp
  show "timer (heap m' x) = Stopped \<and> worker (heap m' x) = GNone"
    using inv_allocD [OF assms(1), of x] x f(1) f(10) [of x]
      worker_step_other_pc(1) [OF assms(2,3) ne]
    by auto
qed

lemma worker_step_mu:
  assumes "inv_mu m" "worker_step e p m = Some m'"
  shows "inv_mu m'"
proof -
  note f = worker_step_frame [OF assms(2)]
  have "count_if (\<lambda>x. holds_rlock (timer x)) m' = count_if (\<lambda>x. holds_rlock (timer x)) m"
    by (rule count_if_same) (simp_all add: f(1) f(10))
  then show ?thesis using assms(1) f(2) by (simp add: inv_mu_def)
qed

lemma worker_next_inflight:
  assumes "worker (heap m e) \<noteq> GNone" "worker (heap m e) \<noteq> GFinished"
  shows "inflight (worker_next m e p) = (worker (heap m e) \<noteq> GWgDone)"
  using assms by (auto simp: worker_next_def split: worker_splits)

lemma worker_step_wg:
  assumes "inv_wg m" "inv_alloc m" "inv_sendq m" "worker_step e p m = Some m'"
  shows "inv_wg m'"
proof -
  have lt: "e < nxt m" using assms(2,4) by (rule worker_step_lt)
  note f = worker_step_frame [OF assms(4)]
  note en = worker_step_enabled [OF assms(4)]
  have "count_if (\<lambda>x. inflight (worker x)) m' + (if inflight (worker (heap m e)) then 1 else 0)
        = count_if (\<lambda>x. inflight (worker x)) m + (if inflight (worker (heap m' e)) then 1 else 0)"
  proof (rule count_if_one [OF lt f(1)])
    fix x assume "x \<noteq> e"
    then show "inflight (worker (heap m' x)) = inflight (worker (heap m x))"
      using worker_step_other_pc(1) [OF assms(3,4), of x] by auto
  qed
  moreover have "inflight (worker (heap m e))"
    using en by (cases "worker (heap m e)") auto
  moreover have "inflight (worker (heap m' e)) = (worker (heap m e) \<noteq> GWgDone)"
    using worker_step_self [OF assms(3,4)] worker_next_inflight [OF en(1,3)] by simp
  ultimately show ?thesis
    using assms(1) f(12) f(13) by (auto simp: inv_wg_def split: if_splits)
qed

lemma worker_step_open:
  assumes "inv_open m" "worker_step e p m = Some m'"
  shows "inv_open m'"
  using assms(1) worker_step_frame(5,10) [OF assms(2)]
  by (simp add: inv_open_def)

lemma worker_step_drain:
  assumes "inv_drain m" "worker_step e p m = Some m'"
  shows "inv_drain m'"
proof -
  note f = worker_step_frame [OF assms(2)]
  have "pending m' = []" if "pending m = []"
    using f(14) that by auto
  then show ?thesis
    using assms(1) f(5,6,7,8,12) by (auto simp: inv_drain_def)
qed

lemma worker_step_spawn:
  assumes "inv_spawn m" "inv_sendq m" "worker_step e p m = Some m'"
  shows "inv_spawn m'"
  unfolding inv_spawn_def
proof (intro allI impI)
  fix x assume x: "worker (heap m' x) \<noteq> GNone"
  note f = worker_step_frame [OF assms(3)]
  have "worker (heap m x) \<noteq> GNone"
  proof (cases "x = e")
    case True
    then show ?thesis using worker_step_enabled(1) [OF assms(3)] by simp
  next
    case False
    then show ?thesis using x worker_step_other_pc(1) [OF assms(2,3) False] by auto
  qed
  then show "timer (heap m' x) = GoUnlock \<or> timer (heap m' x) = Returned"
    using inv_spawnD [OF assms(1), of x] f(10) [of x] by simp
qed

lemma worker_next_pre_run:
  "pre_run (worker_next m e p) \<Longrightarrow> worker (heap m e) \<noteq> GStarted \<and> pre_run (worker (heap m e))"
  by (auto simp: worker_next_def split: worker_splits)

lemma worker_step_inv_runs:
  assumes "inv_runs m" "inv_sendq m" "worker_step e p m = Some m'"
  shows "inv_runs m'"
  unfolding inv_runs_def
proof (intro allI)
  fix x
  note r = inv_runsD [OF assms(1), of x]
  show "runs (heap m' x) \<le> 1 \<and> (pre_run (worker (heap m' x)) \<longrightarrow> runs (heap m' x) = 0)"
  proof (cases "x = e")
    case True
    then show ?thesis
      using r worker_step_runs [OF assms(3), of x] worker_step_self [OF assms(2,3)]
        worker_next_pre_run [of m e p]
      by (auto split: if_splits)
  next
    case False
    then show ?thesis
      using r worker_step_other_pc [OF assms(2,3) False] by auto
  qed
qed

lemma worker_step_inv_sendq:
  assumes "inv_sendq m" "worker_step e p m = Some m'"
  shows "inv_sendq m'"
proof -
  note en = worker_step_enabled [OF assms(2)]
  have ne: "e \<notin> set (sendq m)"
    using inv_sendqD [OF assms(1), of e] en(2) by blast
  have d: "distinct (sendq m)" using assms(1) by (simp add: inv_sendq_def)
  consider
    (same) "sendq m' = sendq m" "\<forall>x. x \<noteq> e \<longrightarrow> heap m' x = heap m x"
  | (park) "worker (heap m' e) = GWaiting" "sendq m' = sendq m @ [e]"
      "\<forall>x. x \<noteq> e \<longrightarrow> heap m' x = heap m x"
  | (canc) "worker (heap m e) = GCancel" "sendq m' = sendq m"
  | (hand) w where "sendq m = w # sendq m'"
      "\<forall>x. x \<noteq> e \<longrightarrow> x \<noteq> w \<longrightarrow> heap m' x = heap m x"
    using worker_step_sendq [OF assms(2)] by blast
  then show ?thesis
  proof cases
    case same
    then show ?thesis
      using assms(1) ne unfolding inv_sendq_def by (metis)
  next
    case park
    then show ?thesis
      using assms(1) ne unfolding inv_sendq_def by (auto)
  next
    case canc
    have "worker (heap m' x) = GWaiting" if "x \<in> set (sendq m)" for x
    proof -
      have "x \<noteq> e" using that ne by blast
      then show ?thesis
        using worker_step_other_pc(1) [OF assms, of x] inv_sendqD [OF assms(1) that]
          worker_step_other [OF assms(2), of x] canc(1)
        by auto
    qed
    then show ?thesis using d canc(2) by (simp add: inv_sendq_def)
  next
    case hand
    have "worker (heap m' x) = GWaiting" if "x \<in> set (sendq m')" for x
    proof -
      have "x \<in> set (sendq m)" "x \<noteq> w" using that hand(1) d by (metis list.set_intros(2), metis distinct.simps(2))
      then show ?thesis using hand(2) ne inv_sendqD [OF assms(1), of x] by metis
    qed
    moreover have "distinct (sendq m')" using d hand(1) by (metis distinct.simps(2))
    ultimately show ?thesis by (simp add: inv_sendq_def)
  qed
qed

lemma worker_next_refused:
  "semaphore m = None \<Longrightarrow> \<not> refused (worker (heap m e)) \<Longrightarrow> \<not> refused (worker_next m e p)"
  by (auto simp: worker_next_def acquireSlot_def split: worker_splits)

lemma worker_step_gate:
  assumes "inv_gate m" "inv_sendq m" "worker_step e p m = Some m'"
  shows "inv_gate m'"
proof -
  note f = worker_step_frame [OF assms(3)]
  have a: "\<not> refused (worker (heap m' x))" if "semaphore m = None" for x
  proof (cases "x = e")
    case True
    then show ?thesis
      using worker_step_self [OF assms(2,3)] worker_next_refused [OF that, of e p]
        inv_gateD [OF assms(1) that, of e]
      by simp
  next
    case False
    then show ?thesis
      using worker_step_other_pc(1) [OF assms(2,3) False] inv_gateD [OF assms(1) that, of x]
      by auto
  qed
  have b: "\<forall>ev \<in> set (events m'). \<not> is_OnFailed ev" if "semaphore m = None"
  proof -
    have "worker (heap m e) \<noteq> GDropLog" using inv_gateD [OF assms(1) that, of e] by auto
    moreover have "\<forall>ev \<in> set (events m). \<not> is_OnFailed ev"
      using assms(1) that by (simp add: inv_gate_def)
    ultimately show ?thesis using f(15) by auto
  qed
  show ?thesis using a b f(3) by (simp add: inv_gate_def)
qed

subsection \<open>Stopping and cancelling entries\<close>

lemma inv_heap_stutter:
  assumes "inv_heap m"
    and "nxt m' = nxt m" "mu_readers m' = mu_readers m" "wg m' = wg m"
      "semaphore m' = semaphore m"
    and t: "\<And>x. timer (heap m' x) = timer (heap m x) \<or>
             (timer (heap m x) = Armed \<and> timer (heap m' x) = Stopped)"
    and w: "\<And>x. worker (heap m' x) = worker (heap m x) \<or>
             (worker (heap m x) = GWaiting \<and> worker (heap m' x) = GWokenDone \<and>
              x \<notin> set (sendq m'))"
    and r: "\<And>x. runs (heap m' x) = runs (heap m x)"
    and q: "distinct (sendq m')" "set (sendq m') \<subseteq> set (sendq m)"
    and ev: "(\<forall>ev \<in> set (events m). \<not> is_OnFailed ev) \<Longrightarrow>
             (\<forall>ev \<in> set (events m'). \<not> is_OnFailed ev)"
  shows "inv_heap m'"
proof -
  have a: "inv_alloc m" and mu: "inv_mu m" and g: "inv_wg m" and sp: "inv_spawn m"
    and ru: "inv_runs m" and sq: "inv_sendq m" and ga: "inv_gate m"
    using assms(1) by (simp_all add: inv_heap_def)
  have 1: "inv_alloc m'"
    unfolding inv_alloc_def
  proof (intro allI impI)
    fix x assume "nxt m' \<le> x"
    then show "timer (heap m' x) = Stopped \<and> worker (heap m' x) = GNone"
      using inv_allocD [OF a, of x] assms(2) t [of x] w [of x] by auto
  qed
  have "count_if (\<lambda>x. holds_rlock (timer x)) m' = count_if (\<lambda>x. holds_rlock (timer x)) m"
  proof (rule count_if_same [OF assms(2)])
    fix x show "holds_rlock (timer (heap m' x)) = holds_rlock (timer (heap m x))"
      using t [of x] by auto
  qed
  then have 2: "inv_mu m'" using mu assms(3) by (simp add: inv_mu_def)
  have "count_if (\<lambda>x. inflight (worker x)) m' = count_if (\<lambda>x. inflight (worker x)) m"
  proof (rule count_if_same [OF assms(2)])
    fix x show "inflight (worker (heap m' x)) = inflight (worker (heap m x))"
      using w [of x] by auto
  qed
  then have 3: "inv_wg m'" using g assms(4) by (simp add: inv_wg_def)
  have 4: "inv_spawn m'"
    unfolding inv_spawn_def
  proof (intro allI impI)
    fix x assume "worker (heap m' x) \<noteq> GNone"
    then have "worker (heap m x) \<noteq> GNone" using w [of x] by auto
    then show "timer (heap m' x) = GoUnlock \<or> timer (heap m' x) = Returned"
      using inv_spawnD [OF sp, of x] t [of x] by auto
  qed
  have 5: "inv_runs m'"
    unfolding inv_runs_def
  proof (intro allI)
    fix x
    show "runs (heap m' x) \<le> 1 \<and> (pre_run (worker (heap m' x)) \<longrightarrow> runs (heap m' x) = 0)"
      using inv_runsD [OF ru, of x] r [of x] w [of x] by auto
  qed
  have "worker (heap m' x) = GWaiting" if "x \<in> set (sendq m')" for x
    using that q(2) inv_sendqD [OF sq, of x] w [of x] by auto
  then have 6: "inv_sendq m'" using q(1) by (simp add: inv_sendq_def)
  have "\<not> refused (worker (heap m' x))" if "semaphore m = None" for x
    using inv_gateD [OF ga that, of x] w [of x] by auto
  then have 7: "inv_gate m'"
    using ga ev assms(5) by (simp add: inv_gate_def)
  show ?thesis using 1 2 3 4 5 6 7 by (simp add: inv_heap_def)
qed

lemma inv_heap_retire:
  assumes "inv_heap m" "\<not> is_OnFailed ev"
  shows "inv_heap (emit ev ((cancel e (timer_Stop e m))\<lparr>pending := p\<rparr>))"
proof (rule inv_heap_stutter [OF assms(1)])
  have "distinct (sendq m)" using assms(1) by (simp add: inv_heap_def inv_sendq_def)
  then show "distinct (sendq (emit ev ((cancel e (timer_Stop e m))\<lparr>pending := p\<rparr>)))"
    by (simp add: distinct_removeAll)
qed (use assms(2) in \<open>auto\<close>)

lemma inv_heap_eqI:
  assumes "heap m' = heap m" "nxt m' = nxt m" "mu_readers m' = mu_readers m" "wg m' = wg m"
    "semaphore m' = semaphore m" "sendq m' = sendq m" "events m' = events m"
  shows "inv_heap m' = inv_heap m"
  using assms
  by (simp add: inv_heap_def inv_alloc_def inv_mu_def inv_wg_def inv_spawn_def inv_runs_def
      inv_sendq_def inv_gate_def count_if_def)

lemma inv_heap_alloc:
  assumes "inv_heap m" "timer v = Armed" "worker v = GNone" "runs v = 0"
  shows "inv_heap (m\<lparr>heap := (heap m)(nxt m := v), nxt := Suc (nxt m), pending := p\<rparr>)"
    (is "inv_heap ?m'")
proof -
  have a: "inv_alloc m" and mu: "inv_mu m" and g: "inv_wg m" and sp: "inv_spawn m"
    and ru: "inv_runs m" and sq: "inv_sendq m" and ga: "inv_gate m"
    using assms(1) by (simp_all add: inv_heap_def)
  have old: "timer (heap m (nxt m)) = Stopped \<and> worker (heap m (nxt m)) = GNone"
    using inv_allocD [OF a, of "nxt m"] by simp
  have 1: "inv_alloc ?m'"
    using a by (auto simp: inv_alloc_def)
  have "count_if (\<lambda>x. holds_rlock (timer x)) ?m'
        = count_if (\<lambda>x. holds_rlock (timer x)) m
          + (if holds_rlock (timer (heap ?m' (nxt m))) then 1 else 0)"
    by (rule count_if_alloc) simp_all
  then have 2: "inv_mu ?m'" using mu assms(2) by (simp add: inv_mu_def)
  have "count_if (\<lambda>x. inflight (worker x)) ?m'
        = count_if (\<lambda>x. inflight (worker x)) m
          + (if inflight (worker (heap ?m' (nxt m))) then 1 else 0)"
    by (rule count_if_alloc) simp_all
  then have 3: "inv_wg ?m'" using g assms(3) by (simp add: inv_wg_def)
  have 4: "inv_spawn ?m'"
    using sp assms(3) by (auto simp: inv_spawn_def)
  have 5: "inv_runs ?m'"
    using ru assms(4) by (auto simp: inv_runs_def)
  have "worker (heap ?m' x) = GWaiting" if "x \<in> set (sendq m)" for x
    using inv_sendqD [OF sq that] old by auto
  then have 6: "inv_sendq ?m'" using sq by (simp add: inv_sendq_def)
  have 7: "inv_gate ?m'"
    using ga assms(3) by (auto simp: inv_gate_def)
  show ?thesis using 1 2 3 4 5 6 7 by (simp add: inv_heap_def)
qed

lemma inv_heap_emit:
  assumes "inv_heap m" "\<not> is_OnFailed ev"
  shows "inv_heap (emit ev m)"
  by (rule inv_heap_stutter [OF assms(1)])
     (use assms in \<open>auto simp: inv_heap_def inv_sendq_def\<close>)

lemma Schedule_heap:
  assumes "inv_heap m"
  shows "inv_heap (Schedule tid d tk m)"
proof (cases "isClosed m")
  case True
  then show ?thesis using assms by (simp add: Schedule_def)
next
  case False
  define m1 where "m1 = (case map_of (pending m) tid of
                    Some old \<Rightarrow> emit (OnRescheduled tid) (cancel old (timer_Stop old m))
                  | None \<Rightarrow> emit (OnScheduled tid d) m)"
  have "inv_heap m1"
  proof (cases "map_of (pending m) tid")
    case None
    then show ?thesis
      using inv_heap_emit [where ev = "OnScheduled tid d", OF assms] by (simp add: m1_def)
  next
    case (Some old)
    then show ?thesis
      using inv_heap_retire [where ev = "OnRescheduled tid" and e = old and p = "pending m",
          OF assms]
        inv_heap_eqI [of "emit (OnRescheduled tid) (cancel old (timer_Stop old m))"
          "emit (OnRescheduled tid) ((cancel old (timer_Stop old m))\<lparr>pending := pending m\<rparr>)"]
      by (simp add: m1_def)
  qed
  then have "inv_heap (m1\<lparr>heap := (heap m1)(nxt m1 := \<lparr>eid = tid, task = tk,
      fire_at = clock m1 + d, timer = Armed, worker = GNone, cancelled = False, start = 0,
      runs = 0\<rparr>), nxt := Suc (nxt m1), pending := AList.update tid (nxt m1) (pending m1)\<rparr>)"
    by (rule inv_heap_alloc) simp_all
  then show ?thesis using False by (simp add: Schedule_def m1_def Let_def)
qed

lemma Schedule_flags:
  "isClosed (Schedule tid d tk m) = isClosed m"
  "shutdownOnce (Schedule tid d tk m) = shutdownOnce m"
  "shutdownDone (Schedule tid d tk m) = shutdownDone m"
  "drainer (Schedule tid d tk m) = drainer m"
  "wg (Schedule tid d tk m) = wg m"
  "mu_readers (Schedule tid d tk m) = mu_readers m"
  "semaphore (Schedule tid d tk m) = semaphore m"
  "strategy (Schedule tid d tk m) = strategy m"
  "sem_len (Schedule tid d tk m) = sem_len m"
  "clock (Schedule tid d tk m) = clock m"
  by (simp_all add: Schedule_def Let_def split: option.splits)

lemma Schedule_timer:
  "timer (heap (Schedule tid d tk m) x) = SawOpen \<Longrightarrow> timer (heap m x) = SawOpen"
  by (auto simp: Schedule_def Let_def split: option.splits if_splits)

lemma Schedule_invariant:
  assumes "inv_core m"
  shows "inv_core (Schedule tid d tk m)"
proof -
  have h: "inv_heap m" and o: "inv_open m" and dr: "inv_drain m"
    using assms by (simp_all add: inv_core_def)
  have 1: "inv_open (Schedule tid d tk m)"
    using o Schedule_timer [of tid d tk m] by (auto simp: inv_open_def Schedule_flags)
  have "isClosed m \<longrightarrow> pending (Schedule tid d tk m) = []"
    using dr by (simp add: Schedule_def inv_drain_def)
  then have 2: "inv_drain (Schedule tid d tk m)"
    using dr by (simp add: inv_drain_def Schedule_flags)
  show ?thesis using Schedule_heap [OF h] 1 2 by (simp add: inv_core_def)
qed

lemma Cancel_flags:
  "isClosed (Cancel tid m) = isClosed m"
  "shutdownOnce (Cancel tid m) = shutdownOnce m"
  "shutdownDone (Cancel tid m) = shutdownDone m"
  "drainer (Cancel tid m) = drainer m"
  "wg (Cancel tid m) = wg m"
  "mu_readers (Cancel tid m) = mu_readers m"
  "semaphore (Cancel tid m) = semaphore m"
  "strategy (Cancel tid m) = strategy m"
  "sem_len (Cancel tid m) = sem_len m"
  "clock (Cancel tid m) = clock m"
  "nxt (Cancel tid m) = nxt m"
  by (simp_all add: Cancel_def split: option.splits)

lemma Cancel_timer:
  "timer (heap (Cancel tid m) x) = SawOpen \<longleftrightarrow> timer (heap m x) = SawOpen"
  by (auto simp: Cancel_def split: option.splits if_splits)

lemma Cancel_invariant:
  assumes "inv_core m"
  shows "inv_core (Cancel tid m)"
proof -
  have h: "inv_heap m" and o: "inv_open m" and dr: "inv_drain m"
    using assms by (simp_all add: inv_core_def)
  have 0: "inv_heap (Cancel tid m)"
    using h inv_heap_retire [where ev = "OnCancelled tid", OF h]
    by (simp add: Cancel_def split: option.splits)
  have 1: "inv_open (Cancel tid m)"
    using o by (simp add: inv_open_def Cancel_timer Cancel_flags)
  have "pending m = [] \<longrightarrow> pending (Cancel tid m) = []"
    by (simp add: Cancel_def)
  then have 2: "inv_drain (Cancel tid m)"
    using dr by (auto simp: inv_drain_def Cancel_flags)
  show ?thesis using 0 1 2 by (simp add: inv_core_def)
qed

subsection \<open>The closing transition\<close>

lemma cancel_all_heap:
  "inv_heap m \<Longrightarrow> inv_heap (cancel_all order m)"
proof (induction order arbitrary: m)
  case Nil
  then show ?case by simp
next
  case (Cons tid tids)
  show ?case
  proof (cases "map_of (pending m) tid")
    case None
    then show ?thesis using Cons by simp
  next
    case (Some e)
    have "inv_heap (emit (OnCancelled tid)
            ((cancel e (timer_Stop e m))\<lparr>pending := AList.delete tid (pending m)\<rparr>))"
      by (rule inv_heap_retire [OF Cons.prems]) simp
    then show ?thesis using Some Cons.IH by simp
  qed
qed

lemma cancel_all_flags:
  "isClosed (cancel_all order m) = isClosed m"
  "shutdownOnce (cancel_all order m) = shutdownOnce m"
  "shutdownDone (cancel_all order m) = shutdownDone m"
  "drainer (cancel_all order m) = drainer m"
  "wg (cancel_all order m) = wg m"
  "mu_readers (cancel_all order m) = mu_readers m"
  "semaphore (cancel_all order m) = semaphore m"
  "strategy (cancel_all order m) = strategy m"
  "sem_len (cancel_all order m) = sem_len m"
  "clock (cancel_all order m) = clock m"
  "nxt (cancel_all order m) = nxt m"
  by (induction order arbitrary: m; simp split: option.splits)+

lemma cancel_all_timer:
  "timer (heap (cancel_all order m) x) = SawOpen \<longleftrightarrow> timer (heap m x) = SawOpen"
  by (induction order arbitrary: m) (auto split: option.splits if_splits)

lemma cancel_all_pending:
  "pending (cancel_all order m) = filter (\<lambda>p. fst p \<notin> set order) (pending m)"
proof (induction order arbitrary: m)
  case Nil
  then show ?case by simp
next
  case (Cons tid tids)
  show ?case
  proof (cases "map_of (pending m) tid")
    case None
    then have "tid \<notin> fst ` set (pending m)" by (simp add: map_of_eq_None_iff)
    then have "filter (\<lambda>p. fst p \<notin> set (tid # tids)) (pending m)
               = filter (\<lambda>p. fst p \<notin> set tids) (pending m)"
      by (intro filter_cong) auto
    then show ?thesis using None Cons.IH by simp
  next
    case (Some e)
    have "filter (\<lambda>p. fst p \<notin> set tids) (AList.delete tid (pending m))
          = filter (\<lambda>p. fst p \<notin> set (tid # tids)) (pending m)"
      by (simp add: AList.delete_eq) (intro filter_cong; auto)
    then show ?thesis using Some Cons.IH by simp
  qed
qed

lemma cancel_all_events:
  "distinct order \<Longrightarrow> set order \<subseteq> fst ` set (pending m) \<Longrightarrow>
   events (cancel_all order m) = events m @ map OnCancelled order"
proof (induction order arbitrary: m)
  case Nil
  then show ?case by simp
next
  case (Cons tid tids)
  from Cons.prems obtain e where e: "map_of (pending m) tid = Some e"
    by (cases "map_of (pending m) tid") (auto simp: map_of_eq_None_iff)
  let ?m1 = "emit (OnCancelled tid)
      ((cancel e (timer_Stop e m))\<lparr>pending := AList.delete tid (pending m)\<rparr>)"
  have "set (map fst (AList.delete tid (pending m))) = set (map fst (pending m)) - {tid}"
    by (simp add: delete_keys)
  then have "set tids \<subseteq> fst ` set (pending ?m1)"
    using Cons.prems by auto
  then have "events (cancel_all tids ?m1) = events ?m1 @ map OnCancelled tids"
    using Cons.IH Cons.prems by simp
  then show ?case using e by simp
qed

lemma Shutdown_once_invariant:
  assumes "inv_core m" "mu_readers m = 0" "set order = set (map fst (pending m))"
  shows "inv_core (Shutdown_once order m)"
proof (cases "shutdownOnce m")
  case True
  then show ?thesis using assms(1) by (simp add: Shutdown_once_def)
next
  case False
  have h: "inv_heap m" and o: "inv_open m" and dr: "inv_drain m"
    using assms(1) by (simp_all add: inv_core_def)
  have "inv_heap (m\<lparr>isClosed := True\<rparr>)"
    using h by (simp add: inv_heap_eqI [of "m\<lparr>isClosed := True\<rparr>" m])
  then have "inv_heap (cancel_all order (m\<lparr>isClosed := True\<rparr>))"
    by (rule cancel_all_heap)
  then have 0: "inv_heap (Shutdown_once order m)"
    using False
      inv_heap_eqI [of "(cancel_all order (m\<lparr>isClosed := True\<rparr>))\<lparr>shutdownOnce := True,
         drainer := DWait\<rparr>" "cancel_all order (m\<lparr>isClosed := True\<rparr>)"]
    by (simp add: Shutdown_once_def)
  have none: "timer (heap m x) \<noteq> SawOpen" for x
  proof (cases "x < nxt m")
    case True
    have "count_if (\<lambda>x. holds_rlock (timer x)) m = 0"
      using h assms(2) by (simp add: inv_heap_def inv_mu_def)
    then have "\<not> holds_rlock (timer (heap m x))" using True by (rule count_if_zero)
    then show ?thesis by auto
  next
    case False
    then show ?thesis using h inv_allocD [of m x] by (simp add: inv_heap_def)
  qed
  have 1: "inv_open (Shutdown_once order m)"
    using False none by (simp add: inv_open_def Shutdown_once_def cancel_all_timer)
  have "pending (Shutdown_once order m) = []"
    using False assms(3) by (simp add: Shutdown_once_def cancel_all_pending filter_empty_conv)
  then have 2: "inv_drain (Shutdown_once order m)"
    using False dr by (auto simp: inv_drain_def Shutdown_once_def cancel_all_flags)
  show ?thesis using 0 1 2 by (simp add: inv_core_def)
qed

lemma drain_step_invariant:
  assumes "inv_core m" "drain_step m = Some m'"
  shows "inv_core m'"
proof -
  have h: "inv_heap m" and o: "inv_open m" and dr: "inv_drain m"
    using assms(1) by (simp_all add: inv_core_def)
  have f: "heap m' = heap m" "nxt m' = nxt m" "mu_readers m' = mu_readers m" "wg m' = wg m"
    "semaphore m' = semaphore m" "sendq m' = sendq m" "events m' = events m"
    "isClosed m' = isClosed m" "pending m' = pending m" "shutdownOnce m' = shutdownOnce m"
    using assms(2) by (auto simp: drain_step_def split: drain_pc.splits if_splits)
  have 0: "inv_heap m'"
    using h f inv_heap_eqI [of m' m] by simp
  have 1: "inv_open m'" using o f by (simp add: inv_open_def)
  have 2: "inv_drain m'"
    using dr f assms(2)
    by (auto simp: inv_drain_def drain_step_def split: drain_pc.splits if_splits)
  show ?thesis using 0 1 2 by (simp add: inv_core_def)
qed

lemma Tick_invariant:
  assumes "inv_core m"
  shows "inv_core (m\<lparr>clock := clock m + int n\<rparr>)"
proof -
  have h: "inv_heap m" and o: "inv_open m" and dr: "inv_drain m"
    using assms(1) by (simp_all add: inv_core_def)
  have 0: "inv_heap (m\<lparr>clock := clock m + int n\<rparr>)"
    using h by (simp add: inv_heap_eqI [of "m\<lparr>clock := clock m + int n\<rparr>" m])
  show ?thesis using 0 o dr by (simp add: inv_core_def inv_open_def inv_drain_def)
qed

lemma timer_step_core:
  assumes "inv_core m" "timer_step e m = Some m'"
  shows "inv_core m'"
proof -
  have h: "inv_alloc m" "inv_mu m" "inv_wg m" "inv_spawn m" "inv_runs m" "inv_sendq m"
    "inv_gate m" "inv_open m" "inv_drain m"
    using assms(1) by (simp_all add: inv_core_def inv_heap_def)
  show ?thesis
    unfolding inv_core_def inv_heap_def
    using timer_step_alloc [OF h(1,4) assms(2)] timer_step_mu [OF h(2,1) assms(2)]
      timer_step_wg [OF h(3,1,4) assms(2)] timer_step_spawn [OF h(4) assms(2)]
      timer_step_runs [OF h(5,4) assms(2)] timer_step_sendq [OF h(6,4) assms(2)]
      timer_step_gate [OF h(7,4) assms(2)] timer_step_open [OF h(8) assms(2)]
      timer_step_drain [OF h(9,8) assms(2)]
    by simp
qed

lemma worker_step_core:
  assumes "inv_core m" "worker_step e p m = Some m'"
  shows "inv_core m'"
proof -
  have h: "inv_alloc m" "inv_mu m" "inv_wg m" "inv_spawn m" "inv_runs m" "inv_sendq m"
    "inv_gate m" "inv_open m" "inv_drain m"
    using assms(1) by (simp_all add: inv_core_def inv_heap_def)
  show ?thesis
    unfolding inv_core_def inv_heap_def
    using worker_step_alloc [OF h(1,6) assms(2)] worker_step_mu [OF h(2) assms(2)]
      worker_step_wg [OF h(3,1,6) assms(2)] worker_step_spawn [OF h(4,6) assms(2)]
      worker_step_inv_runs [OF h(5,6) assms(2)] worker_step_inv_sendq [OF h(6) assms(2)]
      worker_step_gate [OF h(7,6) assms(2)] worker_step_open [OF h(8) assms(2)]
      worker_step_drain [OF h(9) assms(2)]
    by simp
qed


section \<open>Evolution of entries\<close>

subsection \<open>How entries change\<close>

lemma retired_refl [simp]: "retired a a"
  by (simp add: retired_def)

lemma retired_trans: "retired a b \<Longrightarrow> retired b c \<Longrightarrow> retired a c"
  by (auto simp: retired_def)

lemma evolves_refl [simp]: "evolves a a"
  by (simp add: evolves_def)

lemma evolves_trans: "evolves a b \<Longrightarrow> evolves b c \<Longrightarrow> evolves a c"
  unfolding evolves_def by (elim conjE, intro conjI) (simp_all, linarith+)

lemma retired_evolves: "retired a b \<Longrightarrow> evolves a b"
  by (auto simp: retired_def evolves_def)

lemma retired_stop_cancel: "retired (heap m x) (heap (cancel e (timer_Stop e m)) x)"
  by (simp add: retired_def)

lemma Cancel_retired: "retired (heap m x) (heap (Cancel tid m) x)"
  by (simp add: Cancel_def retired_stop_cancel split: option.splits)

lemma cancel_all_retired: "retired (heap m x) (heap (cancel_all order m) x)"
proof (induction order arbitrary: m)
  case Nil
  then show ?case by simp
next
  case (Cons tid tids)
  show ?case
  proof (cases "map_of (pending m) tid")
    case None
    then show ?thesis using Cons.IH by simp
  next
    case (Some e)
    let ?m1 = "emit (OnCancelled tid)
      ((cancel e (timer_Stop e m))\<lparr>pending := AList.delete tid (pending m)\<rparr>)"
    have "retired (heap m x) (heap ?m1 x)" by (simp add: retired_stop_cancel)
    moreover have "retired (heap ?m1 x) (heap (cancel_all tids ?m1) x)" by (rule Cons.IH)
    ultimately show ?thesis using Some by (simp del: emit_fields) (rule retired_trans)
  qed
qed

lemma Shutdown_once_retired: "retired (heap m x) (heap (Shutdown_once order m) x)"
  using cancel_all_retired [of "m\<lparr>isClosed := True\<rparr>" x order]
  by (simp add: Shutdown_once_def)

lemma Schedule_nxt:
  "nxt (Schedule tid d tk m) = (if isClosed m then nxt m else Suc (nxt m))"
  by (simp add: Schedule_def Let_def split: option.splits)

lemma Schedule_retired:
  "x \<noteq> nxt m \<Longrightarrow> retired (heap m x) (heap (Schedule tid d tk m) x)"
  by (simp add: Schedule_def Let_def retired_stop_cancel split: option.splits)

lemma Schedule_new:
  "\<not> isClosed m \<Longrightarrow>
   heap (Schedule tid d tk m) (nxt m)
   = \<lparr>eid = tid, task = tk, fire_at = clock m + d, timer = Armed, worker = GNone,
      cancelled = False, start = 0, runs = 0\<rparr>"
  by (simp add: Schedule_def Let_def split: option.splits)

lemma Schedule_pending:
  "\<not> isClosed m \<Longrightarrow>
   pending (Schedule tid d tk m) = AList.update tid (nxt m) (pending m)"
  by (simp add: Schedule_def Let_def split: option.splits)

lemma Schedule_events:
  "\<not> isClosed m \<Longrightarrow>
   events (Schedule tid d tk m)
   = events m @ [case map_of (pending m) tid of
                   None \<Rightarrow> OnScheduled tid d | Some old \<Rightarrow> OnRescheduled tid]"
  by (simp add: Schedule_def Let_def split: option.splits)

lemma Schedule_closed: "isClosed m \<Longrightarrow> Schedule tid d tk m = m"
  by (simp add: Schedule_def)

lemma timer_step_evolves:
  assumes "inv_spawn m" "timer_step e m = Some m'"
  shows "evolves (heap m x) (heap m' x)"
proof (cases "x = e")
  case False
  then show ?thesis using timer_step_frame(2) [OF assms(2)] by simp
next
  case True
  show ?thesis
    unfolding True using assms(2) timer_step_idle [OF assms]
    by (auto simp: evolves_def timer_step_def RUnlock_def split: timer_splits)
qed

lemma worker_step_entry:
  assumes "worker_step e p m = Some m'"
  shows "task (heap m' x) = task (heap m x)"
    "cancelled (heap m x) \<Longrightarrow> cancelled (heap m' x)"
  using assms
  by (auto simp: worker_step_def releaseSlot_def split: worker_splits)

lemma worker_next_stage:
  "worker (heap m e) \<noteq> GNone \<Longrightarrow> worker (heap m e) \<noteq> GWaiting \<Longrightarrow>
   worker (heap m e) \<noteq> GFinished \<Longrightarrow>
   stage (worker (heap m e)) < stage (worker_next m e p)"
  by (auto simp: worker_next_def split: worker_splits)

lemma worker_next_GRunning:
  "worker (heap m e) = GStarted \<Longrightarrow> worker_next m e p = GRunning"
  by (simp add: worker_next_def)

lemma worker_step_evolves:
  assumes "inv_sendq m" "worker_step e p m = Some m'"
  shows "evolves (heap m x) (heap m' x)"
proof (cases "x = e")
  case False
  then show ?thesis
    using worker_step_other [OF assms(2) False] inv_sendqD [OF assms(1), of x]
    by (auto simp: evolves_def)
next
  case True
  note en = worker_step_enabled [OF assms(2)]
  note f = worker_step_frame [OF assms(2)]
  have s: "stage (worker (heap m e)) < stage (worker (heap m' e))"
    using worker_step_self [OF assms] worker_next_stage [OF en, of p] by simp
  have r: "runs (heap m' e)
           = (if worker (heap m e) = GStarted then Suc (runs (heap m e)) else runs (heap m e))"
    using worker_step_runs [OF assms(2), of e] by simp
  have g: "worker (heap m e) = GStarted \<Longrightarrow> worker (heap m' e) = GRunning"
    using worker_step_self [OF assms] worker_next_GRunning [of m e p] by simp
  have sp: "worker (heap m e) \<noteq> GNone"
    using en(1) by simp
  show ?thesis
    unfolding True evolves_def
    using s r g sp f(10) [of e] f(11) [of e] worker_step_entry [OF assms(2), of e]
    by (auto split: if_splits)
qed

lemma step_nxt:
  assumes "step l m = Some m'"
  shows "nxt m \<le> nxt m'"
  using assms timer_step_frame(1) worker_step_frame(1)
  by (auto simp: step_def Schedule_nxt Cancel_flags Shutdown_once_def cancel_all_flags
      drain_step_def split: label.splits if_splits drain_pc.splits)

lemma step_evolves:
  assumes "inv_core m" "step l m = Some m'" "x < nxt m"
  shows "evolves (heap m x) (heap m' x)"
proof -
  have sq: "inv_sendq m" and sp: "inv_spawn m"
    using assms(1) by (simp_all add: inv_core_def inv_heap_def)
  show ?thesis
  proof (cases l)
    case (CallSchedule tid d tk)
    then show ?thesis
      using assms(2,3) Schedule_retired [of x m tid d tk]
      by (auto simp: step_def retired_evolves split: if_splits)
  next
    case (CallCancel tid)
    then show ?thesis
      using assms(2) Cancel_retired [of m x tid]
      by (auto simp: step_def retired_evolves split: if_splits)
  next
    case (CallShutdown order)
    then show ?thesis
      using assms(2) Shutdown_once_retired [of m x order]
      by (auto simp: step_def retired_evolves split: if_splits)
  next
    case Drain
    then show ?thesis
      using assms(2)
      by (auto simp: step_def drain_step_def split: drain_pc.splits if_splits)
  next
    case (Tick n)
    then show ?thesis using assms(2) by (auto simp: step_def)
  next
    case (Timer e)
    then show ?thesis using assms(2) timer_step_evolves [OF sp, of e m' x] by (simp add: step_def)
  next
    case (Worker e p)
    then show ?thesis
      using assms(2) worker_step_evolves [OF sq, of e p m' x] by (simp add: step_def)
  qed
qed


section \<open>Every reachable state satisfies the invariant\<close>

subsection \<open>The registry and the fired callbacks\<close>

lemma map_of_filter_keys:
  "map_of (filter (\<lambda>p. fst p \<notin> S) al) k = (if k \<in> S then None else map_of al k)"
  by (induction al) auto

lemma step_pending:
  assumes "step l m = Some m'" "map_of (pending m') k = Some e"
  shows "map_of (pending m) k = Some e \<or>
         (e = nxt m \<and> nxt m' = Suc (nxt m) \<and> eid (heap m' e) = k)"
proof (cases l)
  case (CallSchedule tid d tk)
  show ?thesis
  proof (cases "isClosed m")
    case True
    then show ?thesis using assms CallSchedule by (auto simp: step_def Schedule_closed split: if_splits)
  next
    case False
    then show ?thesis
      using assms CallSchedule
      by (auto simp: step_def Schedule_pending Schedule_nxt Schedule_new update_conv'
          split: if_splits)
  qed
next
  case (CallCancel tid)
  then show ?thesis
    using assms
    by (auto simp: step_def Cancel_def delete_conv' split: if_splits option.splits)
next
  case (CallShutdown order)
  then show ?thesis
    using assms
    by (auto simp: step_def Shutdown_once_def cancel_all_pending map_of_filter_keys
        split: if_splits)
next
  case Drain
  then show ?thesis
    using assms by (auto simp: step_def drain_step_def split: drain_pc.splits if_splits)
next
  case (Tick n)
  then show ?thesis using assms by (auto simp: step_def)
next
  case (Timer x)
  then show ?thesis using assms timer_step_frame(3) [of x m m'] by (simp add: step_def)
next
  case (Worker x p)
  then show ?thesis
    using assms worker_step_frame(14) [of x p m m']
    by (auto simp: step_def delete_conv' split: if_splits)
qed

lemma step_inv_pending:
  assumes "inv_core m" "inv_pending m" "step l m = Some m'"
  shows "inv_pending m'"
  unfolding inv_pending_def
proof (intro allI impI)
  fix k e assume a: "map_of (pending m') k = Some e"
  from step_pending [OF assms(3) a]
  show "e < nxt m' \<and> eid (heap m' e) = k"
  proof
    assume old: "map_of (pending m) k = Some e"
    then have lt: "e < nxt m" and id: "eid (heap m e) = k"
      using assms(2) by (auto simp: inv_pending_def)
    have "evolves (heap m e) (heap m' e)" using assms(1,3) lt by (rule step_evolves)
    then show ?thesis using lt id step_nxt [OF assms(3)] by (simp add: evolves_def)
  next
    assume "e = nxt m \<and> nxt m' = Suc (nxt m) \<and> eid (heap m' e) = k"
    then show ?thesis by auto
  qed
qed

lemma stage_GNone [simp]: "stage w = 0 \<longleftrightarrow> w = GNone"
  by (cases w) auto

lemma inv_firedD:
  assumes "inv_fired m"
  shows "timer (heap m x) = GoUnlock \<Longrightarrow> worker (heap m x) \<noteq> GNone"
    "timer (heap m x) = SawClosed \<Longrightarrow> isClosed m"
    "timer (heap m x) = AbortUnlock \<Longrightarrow> isClosed m"
    "timer (heap m x) = AbortUnlock \<Longrightarrow> worker (heap m x) = GNone \<Longrightarrow> cancelled (heap m x)"
    "timer (heap m x) = Returned \<Longrightarrow> worker (heap m x) = GNone \<Longrightarrow>
     cancelled (heap m x) \<and> isClosed m"
  using assms unfolding inv_fired_def by blast+

lemma inv_firedI:
  assumes "\<And>x. timer (heap m x) = GoUnlock \<Longrightarrow> worker (heap m x) \<noteq> GNone"
    "\<And>x. timer (heap m x) = SawClosed \<Longrightarrow> isClosed m"
    "\<And>x. timer (heap m x) = AbortUnlock \<Longrightarrow> isClosed m"
    "\<And>x. timer (heap m x) = AbortUnlock \<Longrightarrow> worker (heap m x) = GNone \<Longrightarrow>
       cancelled (heap m x)"
    "\<And>x. timer (heap m x) = Returned \<Longrightarrow> worker (heap m x) = GNone \<Longrightarrow>
       cancelled (heap m x) \<and> isClosed m"
  shows "inv_fired m"
  unfolding inv_fired_def using assms by blast

lemma retired_timer:
  assumes "retired a b" "timer b \<noteq> Stopped"
  shows "timer a = timer b"
  using assms by (auto simp: retired_def)

lemma retired_worker:
  assumes "retired a b"
  shows "worker b = GNone \<longleftrightarrow> worker a = GNone"
  using assms by (auto simp: retired_def)

lemma retired_cancelled:
  assumes "retired a b" "cancelled a"
  shows "cancelled b"
  using assms by (simp add: retired_def)

lemma inv_fired_retired:
  assumes "inv_fired m"
    and r: "\<And>x. retired (heap m x) (heap m' x) \<or> timer (heap m' x) = Armed"
    and c: "isClosed m \<Longrightarrow> isClosed m'"
  shows "inv_fired m'"
proof (rule inv_firedI)
  fix x assume t: "timer (heap m' x) = GoUnlock"
  then have rr: "retired (heap m x) (heap m' x)" using r [of x] by auto
  then have "timer (heap m x) = GoUnlock" using t retired_timer [OF rr] by simp
  then show "worker (heap m' x) \<noteq> GNone"
    using inv_firedD(1) [OF assms(1)] retired_worker [OF rr] by simp
next
  fix x assume t: "timer (heap m' x) = SawClosed"
  then have rr: "retired (heap m x) (heap m' x)" using r [of x] by auto
  then have "timer (heap m x) = SawClosed" using t retired_timer [OF rr] by simp
  then show "isClosed m'" using inv_firedD(2) [OF assms(1)] c by blast
next
  fix x assume t: "timer (heap m' x) = AbortUnlock"
  then have rr: "retired (heap m x) (heap m' x)" using r [of x] by auto
  then have "timer (heap m x) = AbortUnlock" using t retired_timer [OF rr] by simp
  then show "isClosed m'" using inv_firedD(3) [OF assms(1)] c by blast
next
  fix x assume t: "timer (heap m' x) = AbortUnlock" and w: "worker (heap m' x) = GNone"
  then have rr: "retired (heap m x) (heap m' x)" using r [of x] by auto
  then have "timer (heap m x) = AbortUnlock" "worker (heap m x) = GNone"
    using t w retired_timer [OF rr] retired_worker [OF rr] by simp_all
  then show "cancelled (heap m' x)"
    using inv_firedD(4) [OF assms(1)] retired_cancelled [OF rr] by blast
next
  fix x assume t: "timer (heap m' x) = Returned" and w: "worker (heap m' x) = GNone"
  then have rr: "retired (heap m x) (heap m' x)" using r [of x] by auto
  then have "timer (heap m x) = Returned" "worker (heap m x) = GNone"
    using t w retired_timer [OF rr] retired_worker [OF rr] by simp_all
  then show "cancelled (heap m' x) \<and> isClosed m'"
    using inv_firedD(5) [OF assms(1)] retired_cancelled [OF rr] c by blast
qed

lemma evolves_worker_GNone:
  assumes "evolves a b" "worker b = GNone"
  shows "worker a = GNone"
proof -
  have "stage (worker a) \<le> stage (worker b)" using assms(1) by (simp add: evolves_def)
  then show ?thesis using assms(2) by simp
qed

lemma evolves_cancelled:
  assumes "evolves a b" "cancelled a"
  shows "cancelled b"
  using assms by (simp add: evolves_def)

lemma inv_fired_evolves:
  assumes "inv_fired m"
    and e: "\<And>x. evolves (heap m x) (heap m' x)"
    and t: "\<And>x. timer (heap m' x) = timer (heap m x)"
    and w: "\<And>x. worker (heap m x) \<noteq> GNone \<Longrightarrow> worker (heap m' x) \<noteq> GNone"
    and c: "isClosed m' = isClosed m"
  shows "inv_fired m'"
proof (rule inv_firedI)
  fix x assume "timer (heap m' x) = GoUnlock"
  then show "worker (heap m' x) \<noteq> GNone"
    using inv_firedD(1) [OF assms(1), of x] t [of x] w [of x] by simp
next
  fix x assume "timer (heap m' x) = SawClosed"
  then show "isClosed m'" using inv_firedD(2) [OF assms(1), of x] t [of x] c by simp
next
  fix x assume "timer (heap m' x) = AbortUnlock"
  then show "isClosed m'" using inv_firedD(3) [OF assms(1), of x] t [of x] c by simp
next
  fix x assume a: "timer (heap m' x) = AbortUnlock" "worker (heap m' x) = GNone"
  then have "worker (heap m x) = GNone" using evolves_worker_GNone [OF e] by blast
  then show "cancelled (heap m' x)"
    using a inv_firedD(4) [OF assms(1), of x] t [of x] evolves_cancelled [OF e, of x] by simp
next
  fix x assume a: "timer (heap m' x) = Returned" "worker (heap m' x) = GNone"
  then have "worker (heap m x) = GNone" using evolves_worker_GNone [OF e] by blast
  then show "cancelled (heap m' x) \<and> isClosed m'"
    using a inv_firedD(5) [OF assms(1), of x] t [of x] evolves_cancelled [OF e, of x] c by simp
qed

lemma timer_step_cancelled:
  assumes "timer_step e m = Some m'"
  shows "cancelled (heap m' e) = (timer (heap m e) = SawClosed \<or> cancelled (heap m e))"
  using assms by (auto simp: timer_step_def RUnlock_def split: timer_splits)

lemma timer_step_fired:
  assumes "inv_fired m" "inv_spawn m" "timer_step e m = Some m'"
  shows "inv_fired m'"
proof -
  note f = timer_step_frame [OF assms(3)]
  note tt = timer_step_timer(1) [OF assms(3)]
  note ww = timer_step_worker(1) [OF assms(2,3)]
  note cc = timer_step_cancelled [OF assms(3)]
  note idle = timer_step_idle [OF assms(2,3)]
  note d = inv_firedD [OF assms(1)]
  have other: "x \<noteq> e \<Longrightarrow> heap m' x = heap m x" for x by (rule f(2))
  show ?thesis
  proof (rule inv_firedI)
    fix x assume a: "timer (heap m' x) = GoUnlock"
    show "worker (heap m' x) \<noteq> GNone"
    proof (cases "x = e")
      case False
      then show ?thesis using a other d(1) [of x] by simp
    next
      case True
      then show ?thesis
        using a tt ww [of e] by (cases "timer (heap m e)") (auto split: if_splits)
    qed
  next
    fix x assume a: "timer (heap m' x) = SawClosed"
    show "isClosed m'"
    proof (cases "x = e")
      case False
      then show ?thesis using a other d(2) [of x] f(7) by simp
    next
      case True
      then show ?thesis
        using a tt f(7) by (cases "timer (heap m e)") (auto split: if_splits)
    qed
  next
    fix x assume a: "timer (heap m' x) = AbortUnlock"
    show "isClosed m'"
    proof (cases "x = e")
      case False
      then show ?thesis using a other d(3) [of x] f(7) by simp
    next
      case True
      then show ?thesis
        using a tt f(7) d(2) [of e] by (cases "timer (heap m e)") (auto split: if_splits)
    qed
  next
    fix x assume a: "timer (heap m' x) = AbortUnlock" "worker (heap m' x) = GNone"
    show "cancelled (heap m' x)"
    proof (cases "x = e")
      case False
      then show ?thesis using a other d(4) [of x] by simp
    next
      case True
      then show ?thesis
        using a tt cc by (cases "timer (heap m e)") (auto split: if_splits)
    qed
  next
    fix x assume a: "timer (heap m' x) = Returned" "worker (heap m' x) = GNone"
    show "cancelled (heap m' x) \<and> isClosed m'"
    proof (cases "x = e")
      case False
      then show ?thesis using a other d(5) [of x] f(7) by simp
    next
      case True
      have "timer (heap m e) \<noteq> Returned" using assms(3) by (auto simp: timer_step_def)
      then show ?thesis
        using True a tt cc ww [of e] f(7) d(1) [of e] d(3) [of e] d(4) [of e]
        by (cases "timer (heap m e)") (auto split: if_splits)
    qed
  qed
qed

lemma step_inv_fired:
  assumes "inv_core m" "inv_fired m" "step l m = Some m'"
  shows "inv_fired m'"
proof -
  have sq: "inv_sendq m" and sp: "inv_spawn m"
    using assms(1) by (simp_all add: inv_core_def inv_heap_def)
  show ?thesis
  proof (cases l)
    case (CallSchedule tid d tk)
    have "retired (heap m x) (heap (Schedule tid d tk m) x) \<or>
          timer (heap (Schedule tid d tk m) x) = Armed" for x
      using Schedule_retired [of x m tid d tk] Schedule_new [of m tid d tk]
        Schedule_closed [of m tid d tk]
      by (cases "x = nxt m"; cases "isClosed m") auto
    then have "inv_fired (Schedule tid d tk m)"
      by (rule inv_fired_retired [OF assms(2)]) (simp add: Schedule_flags)
    then show ?thesis using assms(3) CallSchedule by (auto simp: step_def split: if_splits)
  next
    case (CallCancel tid)
    have "inv_fired (Cancel tid m)"
      by (rule inv_fired_retired [OF assms(2)]) (simp_all add: Cancel_retired Cancel_flags)
    then show ?thesis using assms(3) CallCancel by (auto simp: step_def split: if_splits)
  next
    case (CallShutdown order)
    have "inv_fired (Shutdown_once order m)"
    proof (rule inv_fired_retired [OF assms(2)])
      fix x
      show "retired (heap m x) (heap (Shutdown_once order m) x) \<or>
            timer (heap (Shutdown_once order m) x) = Armed"
        by (simp add: Shutdown_once_retired)
    next
      assume "isClosed m"
      then show "isClosed (Shutdown_once order m)"
        by (simp add: Shutdown_once_def cancel_all_flags)
    qed
    then show ?thesis
      using assms(2,3) CallShutdown by (auto simp: step_def split: if_splits)
  next
    case Drain
    have "heap m' = heap m" "isClosed m' = isClosed m"
      using assms(3) Drain
      by (auto simp: step_def drain_step_def split: drain_pc.splits if_splits)
    then show ?thesis using assms(2) by (simp add: inv_fired_def)
  next
    case (Tick n)
    then show ?thesis using assms(2,3) by (auto simp: step_def inv_fired_def)
  next
    case (Timer e)
    then show ?thesis using assms(3) timer_step_fired [OF assms(2) sp] by (simp add: step_def)
  next
    case (Worker e p)
    then have w: "worker_step e p m = Some m'" using assms(3) by (simp add: step_def)
    have nn: "worker (heap m x) \<noteq> GNone \<Longrightarrow> worker (heap m' x) \<noteq> GNone" for x
      using evolves_worker_GNone [OF worker_step_evolves [OF sq w, of x]] by blast
    show ?thesis
      by (rule inv_fired_evolves [OF assms(2)])
         (simp_all add: worker_step_evolves [OF sq w] worker_step_frame [OF w] nn)
  qed
qed

lemma step_core:
  assumes "inv_core m" "step l m = Some m'"
  shows "inv_core m'"
proof (cases l)
  case (CallSchedule tid d tk)
  then show ?thesis
    using assms Schedule_invariant [of m tid d tk] by (auto simp: step_def split: if_splits)
next
  case (CallCancel tid)
  then show ?thesis
    using assms Cancel_invariant [of m tid] by (auto simp: step_def split: if_splits)
next
  case (CallShutdown order)
  then show ?thesis
    using assms Shutdown_once_invariant [of m order] by (auto simp: step_def split: if_splits)
next
  case Drain
  then show ?thesis using assms drain_step_invariant [of m m'] by (simp add: step_def)
next
  case (Tick n)
  then show ?thesis using assms Tick_invariant [of m n] by (auto simp: step_def)
next
  case (Timer e)
  then show ?thesis using assms timer_step_core [of m e m'] by (simp add: step_def)
next
  case (Worker e p)
  then show ?thesis using assms worker_step_core [of m e p m'] by (simp add: step_def)
qed

lemma step_invariant:
  assumes "invariant m" "step l m = Some m'"
  shows "invariant m'"
  using assms step_core [of m l m'] step_inv_pending [of m l m'] step_inv_fired [of m l m']
  by (simp add: invariant_def)

lemma exec_invariant:
  "invariant m \<Longrightarrow> exec ls m = Some m' \<Longrightarrow> invariant m'"
proof (induction ls arbitrary: m)
  case Nil
  then show ?case by simp
next
  case (Cons l ls)
  then show ?case by (auto split: option.splits dest: step_invariant)
qed

lemma invariant_fields:
  assumes "heap m' = heap m" "nxt m' = nxt m" "mu_readers m' = mu_readers m" "wg m' = wg m"
    "sendq m' = sendq m" "events m' = events m" "isClosed m' = isClosed m"
    "shutdownOnce m' = shutdownOnce m" "shutdownDone m' = shutdownDone m"
    "drainer m' = drainer m" "pending m' = pending m"
    "semaphore m' = None \<Longrightarrow> semaphore m = None"
    and "invariant m"
  shows "invariant m'"
proof -
  have h: "inv_alloc m" "inv_mu m" "inv_wg m" "inv_spawn m" "inv_runs m" "inv_sendq m"
    "inv_gate m" "inv_open m" "inv_drain m" "inv_pending m" "inv_fired m"
    using assms(13) by (simp_all add: invariant_def inv_core_def inv_heap_def)
  have 1: "inv_alloc m'" using h(1) assms(1,2) by (simp add: inv_alloc_def)
  have 2: "inv_mu m'" using h(2) assms(1,2,3) by (simp add: inv_mu_def count_if_def)
  have 3: "inv_wg m'" using h(3) assms(1,2,4) by (simp add: inv_wg_def count_if_def)
  have 4: "inv_spawn m'" using h(4) assms(1) by (simp add: inv_spawn_def)
  have 5: "inv_runs m'" using h(5) assms(1) by (simp add: inv_runs_def)
  have 6: "inv_sendq m'" using h(6) assms(1,5) by (simp add: inv_sendq_def)
  have 7: "inv_gate m'" using h(7) assms(1,6,12) by (auto simp: inv_gate_def)
  have 8: "inv_open m'" using h(8) assms(1,7) by (simp add: inv_open_def)
  have 9: "inv_drain m'" using h(9) assms(4,7,8,9,10,11) by (simp add: inv_drain_def)
  have 10: "inv_pending m'" using h(10) assms(1,2,11) by (simp add: inv_pending_def)
  have 11: "inv_fired m'" using h(11) assms(1,7) by (simp add: inv_fired_def)
  show ?thesis
    using 1 2 3 4 5 6 7 8 9 10 11 by (simp add: invariant_def inv_core_def inv_heap_def)
qed

lemma invariant_option:
  assumes "is_Option opt" "invariant m"
  shows "invariant (opt m)"
proof -
  from assms(1) consider (lim) limit strat where "opt = WithLimit limit strat"
    | (lg) h where "opt = WithLogger h"
    unfolding is_Option_def by blast
  then show ?thesis
  proof cases
    case lim
    show ?thesis
    proof (cases "0 < limit")
      case True
      then have "opt m = m\<lparr>semaphore := Some (nat limit), strategy := strat\<rparr>"
        using lim by (simp add: WithLimit_def)
      then show ?thesis using invariant_fields [of "opt m" m] assms(2) by simp
    next
      case False
      then show ?thesis using lim assms(2) by (simp add: WithLimit_def)
    qed
  next
    case lg
    show ?thesis
    proof (cases h)
      case None
      then show ?thesis using lg assms(2) by (simp add: WithLogger_def)
    next
      case (Some a)
      then have "opt m = m\<lparr>logger := a\<rparr>" using lg by (simp add: WithLogger_def)
      then show ?thesis using invariant_fields [of "opt m" m] assms(2) by simp
    qed
  qed
qed

lemma invariant_fold:
  "\<forall>opt \<in> set opts. is_Option opt \<Longrightarrow> invariant m \<Longrightarrow> invariant (fold (\<lambda>opt m. opt m) opts m)"
  by (induction opts arbitrary: m) (simp_all add: invariant_option)

lemma invariant_NewManager:
  assumes "\<forall>opt \<in> set opts. is_Option opt"
  shows "invariant (NewManager opts)"
  unfolding NewManager_def
proof (rule invariant_fold [OF assms])
  show "invariant \<lparr>mu_readers = 0, pending = [], semaphore = None, sem_len = 0, sendq = [],
      strategy = 0, logger = nopLogger, wg = 0, isClosed = False,
      shutdownOnce = False, shutdownDone = False, drainer = DNone,
      heap = (\<lambda>_. null_entry), nxt = 0, clock = 0, events = []\<rparr>"
    by (simp add: invariant_def inv_core_def inv_heap_def inv_alloc_def inv_mu_def inv_wg_def
        inv_spawn_def inv_runs_def inv_sendq_def inv_gate_def inv_open_def inv_drain_def
        inv_pending_def inv_fired_def count_if_def null_entry_def)
qed

lemma reachable_invariant: "reachable m \<Longrightarrow> invariant m"
  by (induction rule: reachable.induct) (auto intro: invariant_NewManager step_invariant)

lemma exec_reachable: "reachable m \<Longrightarrow> exec ls m = Some m' \<Longrightarrow> reachable m'"
proof (induction ls arbitrary: m)
  case Nil
  then show ?case by simp
next
  case (Cons l ls)
  then show ?case by (auto split: option.splits intro: reachable.reach_step)
qed


lemma exec_nxt: "exec ls m = Some m' \<Longrightarrow> nxt m \<le> nxt m'"
proof (induction ls arbitrary: m)
  case Nil
  then show ?case by simp
next
  case (Cons l ls)
  then show ?case by (auto split: option.splits dest!: step_nxt) force
qed

lemma exec_evolves:
  "inv_core m \<Longrightarrow> exec ls m = Some m' \<Longrightarrow> x < nxt m \<Longrightarrow> evolves (heap m x) (heap m' x)"
proof (induction ls arbitrary: m)
  case Nil
  then show ?case by simp
next
  case (Cons l ls)
  from Cons.prems obtain m1 where s: "step l m = Some m1" and e: "exec ls m1 = Some m'"
    by (auto split: option.splits)
  have "evolves (heap m x) (heap m1 x)" using Cons.prems(1) s Cons.prems(3) by (rule step_evolves)
  moreover have "evolves (heap m1 x) (heap m' x)"
    using Cons.IH [OF step_core [OF Cons.prems(1) s] e] Cons.prems(3) step_nxt [OF s] by simp
  ultimately show ?case by (rule evolves_trans)
qed

subsection \<open>What no step changes\<close>

lemma Shutdown_once_flags:
  "semaphore (Shutdown_once order m) = semaphore m"
  "strategy (Shutdown_once order m) = strategy m"
  "nxt (Shutdown_once order m) = nxt m"
  "shutdownDone (Shutdown_once order m) = shutdownDone m"
  "isClosed m \<Longrightarrow> isClosed (Shutdown_once order m)"
  by (simp_all add: Shutdown_once_def cancel_all_flags)

lemma step_fixed:
  assumes "step l m = Some m'"
  shows "semaphore m' = semaphore m" "strategy m' = strategy m"
    "isClosed m \<Longrightarrow> isClosed m'" "isClosed m \<Longrightarrow> nxt m' = nxt m"
    "shutdownDone m \<Longrightarrow> shutdownDone m'"
proof -
  have "semaphore m' = semaphore m \<and> strategy m' = strategy m \<and>
        (isClosed m \<longrightarrow> isClosed m' \<and> nxt m' = nxt m) \<and>
        (shutdownDone m \<longrightarrow> shutdownDone m')"
  proof (cases l)
    case (CallSchedule tid d tk)
    then show ?thesis
      using assms by (auto simp: step_def Schedule_flags Schedule_nxt split: if_splits)
  next
    case (CallCancel tid)
    then show ?thesis using assms by (auto simp: step_def Cancel_flags split: if_splits)
  next
    case (CallShutdown order)
    then show ?thesis
      using assms by (auto simp: step_def Shutdown_once_flags split: if_splits)
  next
    case Drain
    then show ?thesis
      using assms by (auto simp: step_def drain_step_def split: drain_pc.splits if_splits)
  next
    case (Tick n)
    then show ?thesis using assms by (auto simp: step_def)
  next
    case (Timer e)
    then show ?thesis using assms timer_step_frame [of e m m'] by (simp add: step_def)
  next
    case (Worker e p)
    then show ?thesis using assms worker_step_frame [of e p m m'] by (simp add: step_def)
  qed
  then show "semaphore m' = semaphore m" "strategy m' = strategy m"
    "isClosed m \<Longrightarrow> isClosed m'" "isClosed m \<Longrightarrow> nxt m' = nxt m"
    "shutdownDone m \<Longrightarrow> shutdownDone m'"
    by simp_all
qed

lemma exec_fixed:
  assumes "exec ls m = Some m'"
  shows "semaphore m' = semaphore m" "strategy m' = strategy m"
    "isClosed m \<Longrightarrow> isClosed m'" "isClosed m \<Longrightarrow> nxt m' = nxt m"
    "shutdownDone m \<Longrightarrow> shutdownDone m'"
proof -
  have "semaphore m' = semaphore m \<and> strategy m' = strategy m \<and>
        (isClosed m \<longrightarrow> isClosed m' \<and> nxt m' = nxt m) \<and>
        (shutdownDone m \<longrightarrow> shutdownDone m')"
    using assms
  proof (induction ls arbitrary: m)
    case Nil
    then show ?case by simp
  next
    case (Cons l ls)
    from Cons.prems obtain m1 where s: "step l m = Some m1" and e: "exec ls m1 = Some m'"
      by (auto split: option.splits)
    show ?case using Cons.IH [OF e] step_fixed [OF s] by auto
  qed
  then show "semaphore m' = semaphore m" "strategy m' = strategy m"
    "isClosed m \<Longrightarrow> isClosed m'" "isClosed m \<Longrightarrow> nxt m' = nxt m"
    "shutdownDone m \<Longrightarrow> shutdownDone m'"
    by simp_all
qed

lemma invariantD:
  assumes "invariant m"
  shows "inv_core m" "inv_heap m" "inv_alloc m" "inv_mu m" "inv_wg m" "inv_spawn m"
    "inv_runs m" "inv_sendq m" "inv_gate m" "inv_open m" "inv_drain m" "inv_pending m"
    "inv_fired m"
  using assms by (simp_all add: invariant_def inv_core_def inv_heap_def)

lemma NewManager_append:
  "NewManager (xs @ opt # ys) = fold (\<lambda>opt m. opt m) ys (opt (NewManager xs))"
  by (simp add: NewManager_def)

lemma NewManager_skip:
  assumes "\<And>m. opt m = m"
  shows "NewManager (xs @ opt # ys) = NewManager (xs @ ys)"
  by (simp add: NewManager_def assms)


section \<open>The properties of the specification\<close>

lemmas run_defs = NewManager_def step_def Schedule_def Cancel_def Shutdown_once_def emit_def
  upd_def cancel_def timer_Stop_def timer_step_def worker_step_def RUnlock_def
  acquireSlot_def releaseSlot_def deleteIfCurrent_def drain_step_def WithLimit_def
  WithLogger_def StrategyDrop_def StrategyBlock_def


text \<open>
  Claim C10. A limit that is not positive means no limit: \<open>WithLimit\<close> with
  \<open>limit \<le> 0\<close> changes nothing, whichever strategy it is given, so the Manager is the
  one constructed without that option: no channel is made and the strategy stays the
  zero value. In every state such a Manager reaches (the other options installing no
  semaphore), \<open>acquireSlot\<close> returns true at once, \<open>releaseSlot\<close> changes nothing, no
  goroutine is parked or refused for capacity and \<open>OnFailed\<close> has never been called.
\<close>

theorem C10_nonpositive_limit_is_unlimited:
  assumes "limit \<le> 0"
  shows "WithLimit limit strat m = m \<and>
         NewManager (xs @ WithLimit limit strat # ys) = NewManager (xs @ ys) \<and>
         semaphore (NewManager [WithLimit limit strat]) = None \<and>
         strategy (NewManager [WithLimit limit strat]) = 0 \<and>
         (\<forall>ls m' e p x.
            (\<forall>opt \<in> set (xs @ ys). is_Option opt) \<longrightarrow>
            semaphore (NewManager (xs @ ys)) = None \<longrightarrow>
            exec ls (NewManager (xs @ WithLimit limit strat # ys)) = Some m' \<longrightarrow>
              semaphore m' = None \<and> acquireSlot m' e p = Unlimited \<and>
              releaseSlot m' = Some m' \<and>
              (worker (heap m' e) = GAcquire \<longrightarrow>
                 step (Worker e p) m' = Some (upd e (\<lambda>x. x\<lparr>worker := GAdmitted\<rparr>) m')) \<and>
              \<not> refused (worker (heap m' x)) \<and>
              (\<forall>ev \<in> set (events m'). \<not> is_OnFailed ev))"
proof -
  have w: "WithLimit limit strat m = m" for m
    using assms by (simp add: WithLimit_def)
  have n: "NewManager (xs @ WithLimit limit strat # ys) = NewManager (xs @ ys)" for xs ys
    by (rule NewManager_skip) (rule w)
  have s: "semaphore (NewManager [WithLimit limit strat]) = None"
    "strategy (NewManager [WithLimit limit strat]) = 0"
    by (simp_all add: NewManager_def w)
  have r: "semaphore m' = None \<and> acquireSlot m' e p = Unlimited \<and>
           releaseSlot m' = Some m' \<and>
           (worker (heap m' e) = GAcquire \<longrightarrow>
              step (Worker e p) m' = Some (upd e (\<lambda>x. x\<lparr>worker := GAdmitted\<rparr>) m')) \<and>
           \<not> refused (worker (heap m' x)) \<and>
           (\<forall>ev \<in> set (events m'). \<not> is_OnFailed ev)"
    if o: "\<forall>opt \<in> set (xs @ ys). is_Option opt"
      and g: "semaphore (NewManager (xs @ ys)) = None"
      and e: "exec ls (NewManager (xs @ WithLimit limit strat # ys)) = Some m'"
    for ls m' e p x
  proof -
    have e': "exec ls (NewManager (xs @ ys)) = Some m'" using e n by simp
    have "invariant (NewManager (xs @ ys))" using o by (rule invariant_NewManager)
    then have "invariant m'" using e' by (rule exec_invariant)
    then have ga: "inv_gate m'" by (rule invariantD)
    have none: "semaphore m' = None" using exec_fixed(1) [OF e'] g by simp
    show ?thesis
      using none ga
      by (auto simp: inv_gate_def acquireSlot_def releaseSlot_def step_def worker_step_def)
  qed
  show ?thesis using w n s r by blast
qed

theorem C10_nonpositive_limit_is_unlimited_witness:
  "(-3::int) \<le> 0 \<and>
   NewManager [WithLimit (-3) StrategyDrop] = NewManager [] \<and>
   exec unlimited_trace (NewManager [WithLimit (-3) StrategyDrop]) \<noteq> None \<and>
   semaphore (the (exec unlimited_trace (NewManager [WithLimit (-3) StrategyDrop]))) = None \<and>
   worker (heap (the (exec unlimited_trace (NewManager [WithLimit (-3) StrategyDrop]))) 0)
     = GAdmitted"
proof -
  let ?M = "NewManager [WithLimit (-3) StrategyDrop]"
  have e: "exec unlimited_trace ?M = Some (the (exec unlimited_trace ?M))"
    by (simp add: unlimited_trace_def fire_def run_defs)
  have w: "worker (heap (the (exec unlimited_trace ?M)) 0) = GAdmitted"
    by (simp add: unlimited_trace_def fire_def run_defs)
  have g: "semaphore (NewManager ([] @ [])) = None" by (simp add: NewManager_def)
  show ?thesis
    using C10_nonpositive_limit_is_unlimited [of "-3" StrategyDrop "NewManager []" "[]" "[]"]
      e w g
    by auto
qed

text \<open>
  Claim C3. \<open>Schedule\<close> on a closed Manager is a no-op: the call returns the state as
  it found it (no entry, no call on the telemetry handler), once it has the lock. In
  every state reached from a closed one the Manager is still closed, no entry has been
  allocated, the registry is empty, and no entry beyond those that existed has a
  timer, a goroutine or a call of its task body.
\<close>

theorem C3_schedule_after_close_is_noop:
  assumes "reachable m" "isClosed m"
  shows "Schedule tid d tk m = m \<and>
         step (CallSchedule tid d tk) m = (if mu_readers m = 0 then Some m else None) \<and>
         (\<forall>ls m'. exec ls m = Some m' \<longrightarrow>
            isClosed m' \<and> nxt m' = nxt m \<and> pending m' = [] \<and>
            (\<forall>x \<ge> nxt m. timer (heap m' x) = Stopped \<and> worker (heap m' x) = GNone \<and>
                          runs (heap m' x) = 0))"
proof -
  have a: "Schedule tid d tk m = m" using assms(2) by (rule Schedule_closed)
  have b: "step (CallSchedule tid d tk) m = (if mu_readers m = 0 then Some m else None)"
    by (simp add: step_def a)
  have c: "isClosed m' \<and> nxt m' = nxt m \<and> pending m' = [] \<and>
           (\<forall>x \<ge> nxt m. timer (heap m' x) = Stopped \<and> worker (heap m' x) = GNone \<and>
                         runs (heap m' x) = 0)"
    if e: "exec ls m = Some m'" for ls m'
  proof -
    have i: "invariant m'"
      using reachable_invariant [OF assms(1)] e by (rule exec_invariant)
    have cl: "isClosed m'" and nx: "nxt m' = nxt m"
      using exec_fixed(3,4) [OF e] assms(2) by simp_all
    have p: "pending m' = []"
      using invariantD(11) [OF i] cl by (simp add: inv_drain_def)
    have "timer (heap m' x) = Stopped \<and> worker (heap m' x) = GNone \<and> runs (heap m' x) = 0"
      if "nxt m \<le> x" for x
      using inv_allocD [OF invariantD(3) [OF i], of x] inv_runsD [OF invariantD(7) [OF i], of x]
        that nx
      by simp
    then show ?thesis using cl nx p by blast
  qed
  show ?thesis using a b c by blast
qed

theorem C3_schedule_after_close_is_noop_witness:
  "isClosed closed_manager \<and>
   Schedule ''late-task'' 0 7 closed_manager = closed_manager \<and>
   step (CallSchedule ''late-task'' 0 7) closed_manager = Some closed_manager \<and>
   exec [CallSchedule ''late-task'' 0 7, Tick 30] closed_manager \<noteq> None \<and>
   nxt (the (exec [CallSchedule ''late-task'' 0 7, Tick 30] closed_manager)) = 0 \<and>
   runs (heap (the (exec [CallSchedule ''late-task'' 0 7, Tick 30] closed_manager)) 0) = 0"
proof -
  have e: "exec [CallShutdown []] (NewManager []) = Some closed_manager"
    by (simp add: closed_manager_def run_defs)
  have "reachable (NewManager [])" by (rule reachable.reach_start) simp
  then have r: "reachable closed_manager" using e by (rule exec_reachable)
  have c: "isClosed closed_manager" "mu_readers closed_manager = 0" "nxt closed_manager = 0"
    by (simp_all add: closed_manager_def run_defs)
  define ls where "ls = [CallSchedule ''late-task'' 0 7, Tick 30]"
  define m' where "m' = the (exec ls closed_manager)"
  have x: "exec ls closed_manager = Some m'"
    using c by (simp add: ls_def m'_def step_def Schedule_closed)
  note t = C3_schedule_after_close_is_noop [OF r c(1), of "''late-task''" 0 7]
  from t have "\<forall>ls m'. exec ls closed_manager = Some m' \<longrightarrow>
            isClosed m' \<and> nxt m' = nxt closed_manager \<and> pending m' = [] \<and>
            (\<forall>x \<ge> nxt closed_manager. timer (heap m' x) = Stopped \<and>
               worker (heap m' x) = GNone \<and> runs (heap m' x) = 0)"
    by blast
  with x have n: "nxt m' = nxt closed_manager \<and> runs (heap m' 0) = 0" using c(3) by blast
  have 2: "Schedule ''late-task'' 0 7 closed_manager = closed_manager" using t by blast
  have 3: "step (CallSchedule ''late-task'' 0 7) closed_manager = Some closed_manager"
    using t c(2) by simp
  have 4: "exec ls closed_manager \<noteq> None" using x by simp
  have 5: "nxt (the (exec ls closed_manager)) = 0" using n c(3) m'_def by simp
  have 6: "runs (heap (the (exec ls closed_manager)) 0) = 0" using n m'_def by simp
  show ?thesis using c(1) 2 3 4 5 6 unfolding ls_def by blast
qed

text \<open>
  Claim C2. The stale-completion guard: \<open>deleteIfCurrent\<close> removes the mapping of an
  id only when it still points at the very entry that asks (pointer comparison), and
  leaves the Manager as it is otherwise. Hence no step of the callback or of the
  goroutine of an entry, on any of its three ways out (the task body returned, the
  Drop policy refused it, it was cancelled while waiting for a slot), removes a
  mapping that points at a newer entry; on each of these ways out the registry
  becomes what \<open>deleteIfCurrent\<close> makes of it.
\<close>

theorem C2_stale_completion_guard:
  "(map_of (pending m) tid \<noteq> Some target \<longrightarrow> deleteIfCurrent tid target m = m) \<and>
   (map_of (pending m) tid = Some target \<longrightarrow>
      deleteIfCurrent tid target m = m\<lparr>pending := AList.delete tid (pending m)\<rparr>) \<and>
   (\<forall>k newer. map_of (pending m) k = Some newer \<longrightarrow> newer \<noteq> target \<longrightarrow>
      map_of (pending (deleteIfCurrent tid target m)) k = Some newer) \<and>
   (\<forall>e p m' k newer.
      step (Worker e p) m = Some m' \<or> step (Timer e) m = Some m' \<longrightarrow>
      map_of (pending m) k = Some newer \<longrightarrow> newer \<noteq> e \<longrightarrow>
      map_of (pending m') k = Some newer) \<and>
   (\<forall>e p m'.
      step (Worker e p) m = Some m' \<longrightarrow>
      worker (heap m e) = GDelete \<or> worker (heap m e) = GDropDelete \<or>
      worker (heap m e) = GWokenDone \<longrightarrow>
      pending m' = pending (deleteIfCurrent (eid (heap m e)) e m))"
proof -
  have 1: "map_of (pending m) tid \<noteq> Some target \<longrightarrow> deleteIfCurrent tid target m = m"
    by (simp add: deleteIfCurrent_def split: option.splits)
  have 2: "map_of (pending m) tid = Some target \<longrightarrow>
           deleteIfCurrent tid target m = m\<lparr>pending := AList.delete tid (pending m)\<rparr>"
    by (simp add: deleteIfCurrent_def)
  have 3: "map_of (pending (deleteIfCurrent tid target m)) k = Some newer"
    if "map_of (pending m) k = Some newer" "newer \<noteq> target" for k newer
    using that by (auto simp: delete_conv')
  have 4: "map_of (pending m') k = Some newer"
    if s: "step (Worker e p) m = Some m' \<or> step (Timer e) m = Some m'"
      and k: "map_of (pending m) k = Some newer" and ne: "newer \<noteq> e"
    for e p m' k newer
    using s
  proof
    assume "step (Timer e) m = Some m'"
    then have "pending m' = pending m" using timer_step_frame(3) [of e m m'] by (simp add: step_def)
    then show ?thesis using k by simp
  next
    assume "step (Worker e p) m = Some m'"
    then have w: "worker_step e p m = Some m'" by (simp add: step_def)
    from worker_step_frame(14) [OF w] show ?thesis
    proof
      assume "pending m' = pending m"
      then show ?thesis using k by simp
    next
      assume d: "map_of (pending m) (eid (heap m e)) = Some e \<and>
                 pending m' = AList.delete (eid (heap m e)) (pending m)"
      then have "k \<noteq> eid (heap m e)" using k ne by auto
      then show ?thesis using d k by (simp add: delete_conv')
    qed
  qed
  have 5: "pending m' = pending (deleteIfCurrent (eid (heap m e)) e m)"
    if "step (Worker e p) m = Some m'"
      "worker (heap m e) = GDelete \<or> worker (heap m e) = GDropDelete \<or>
       worker (heap m e) = GWokenDone"
    for e p m'
    using that by (auto simp: step_def worker_step_def split: if_splits)
  show ?thesis using 1 2 3 4 5 by blast
qed

theorem C2_stale_completion_guard_witness:
  "worker (heap stale_state 0) = GDelete \<and>
   map_of (pending stale_state) ''z'' = Some 1 \<and>
   deleteIfCurrent ''z'' 0 stale_state = stale_state \<and>
   step (Worker 0 True) stale_state \<noteq> None \<and>
   map_of (pending (the (step (Worker 0 True) stale_state))) ''z'' = Some 1 \<and>
   step (CallCancel ''z'') (the (step (Worker 0 True) stale_state)) \<noteq> None \<and>
   timer (heap (the (step (CallCancel ''z'') (the (step (Worker 0 True) stale_state)))) 1)
     = Stopped"
proof -
  define m' where "m' = the (step (Worker 0 True) stale_state)"
  have a: "worker (heap stale_state 0) = GDelete" "map_of (pending stale_state) ''z'' = Some 1"
    "mu_readers stale_state = 0" "eid (heap stale_state 0) = ''z''"
    "timer (heap stale_state 1) = Armed"
    by (simp_all add: stale_state_def fire_def run_body_def run_defs)
  have s: "step (Worker 0 True) stale_state = Some m'"
    using a by (simp add: m'_def step_def worker_step_def)
  note t = C2_stale_completion_guard [of stale_state "''z''" 0]
  have 1: "deleteIfCurrent ''z'' 0 stale_state = stale_state" using t a(2) by simp
  have 2: "map_of (pending m') ''z'' = Some 1"
  proof -
    from t have "\<forall>e p m' k newer.
      step (Worker e p) stale_state = Some m' \<or> step (Timer e) stale_state = Some m' \<longrightarrow>
      map_of (pending stale_state) k = Some newer \<longrightarrow> newer \<noteq> e \<longrightarrow>
      map_of (pending m') k = Some newer" by blast
    then show ?thesis using s a(2) by (metis zero_neq_one)
  qed
  have h: "heap m' 1 = heap stale_state 1" "mu_readers m' = 0"
    using s a by (auto simp: step_def worker_step_def split: if_splits)
  have 3: "step (CallCancel ''z'') m' \<noteq> None" using h by (simp add: step_def)
  have 4: "timer (heap (the (step (CallCancel ''z'') m')) 1) = Stopped"
    using h 2 a(5) by (simp add: step_def Cancel_def)
  have s': "step (Worker 0 True) stale_state \<noteq> None" using s by simp
  show ?thesis using a(1,2) 1 s' 2 3 4 unfolding m'_def by blast
qed

text \<open>
  Claim C8, as the code has it. Shutdown returns a non-nil error only if the context
  is done when its final \<open>select\<close> resolves, and the error is then \<open>ctx.Err()\<close>,
  \<open>context.Canceled\<close> as well as \<open>context.DeadlineExceeded\<close>. With a context that is
  not done the call blocks until the drain is complete and returns nil. With a
  context that is done it returns the error while the drain is not complete, and
  either nil or the error once it is complete (both cases of the \<open>select\<close> are ready).
\<close>

theorem C8_shutdown_error_is_ctx_err:
  "(Shutdown_select m ctx_err pick = Some (Some er) \<longrightarrow> ctx_err = Some er) \<and>
   (ctx_err = None \<longrightarrow>
      Shutdown_select m ctx_err pick = (if shutdownDone m then Some None else None)) \<and>
   (\<not> shutdownDone m \<longrightarrow> Shutdown_select m (Some er) pick = Some (Some er)) \<and>
   (shutdownDone m \<longrightarrow>
      Shutdown_select m (Some er) pick = (if pick then Some None else Some (Some er)))"
  by (auto simp: Shutdown_select_def split: option.splits if_splits)

theorem C8_shutdown_error_is_ctx_err_witness:
  "\<not> shutdownDone busy_manager \<and>
   Shutdown_select busy_manager (Some DeadlineExceeded) True = Some (Some DeadlineExceeded) \<and>
   Shutdown_select busy_manager None True = None \<and>
   shutdownDone drained_manager \<and>
   Shutdown_select drained_manager None False = Some None \<and>
   Shutdown_select drained_manager (Some DeadlineExceeded) True = Some None"
proof -
  have a: "\<not> shutdownDone busy_manager"
    by (simp add: busy_manager_def fire_def run_body_def run_defs)
  have b: "shutdownDone drained_manager" by (simp add: drained_manager_def)
  show ?thesis
    using a b
      C8_shutdown_error_is_ctx_err [of busy_manager "Some DeadlineExceeded" True DeadlineExceeded]
      C8_shutdown_error_is_ctx_err [of busy_manager None True DeadlineExceeded]
      C8_shutdown_error_is_ctx_err [of drained_manager None False DeadlineExceeded]
      C8_shutdown_error_is_ctx_err [of drained_manager "Some DeadlineExceeded" True DeadlineExceeded]
    by simp
qed

text \<open>
  The claim as the specification states it fails twice: a context cancelled by its
  \<open>CancelFunc\<close> makes Shutdown return \<open>context.Canceled\<close>, which is no deadline, and a
  context that is already done makes a call return its error although the drain
  completed before the call.
\<close>

theorem C8_counterexample:
  "Shutdown_select busy_manager (Some Canceled) True = Some (Some Canceled) \<and>
   Canceled \<noteq> DeadlineExceeded \<and>
   exec [CallShutdown [], Drain, Drain] (NewManager []) = Some drained_manager \<and>
   shutdownDone drained_manager \<and>
   Shutdown_select drained_manager (Some Canceled) False = Some (Some Canceled)"
  by (simp add: Shutdown_select_def drained_manager_def busy_manager_def fire_def
      run_body_def run_defs)

lemma cancel_all_stops:
  "map_of (pending m) k = Some e \<Longrightarrow> k \<in> set order \<Longrightarrow>
   cancelled (heap (cancel_all order m) e) \<and> timer (heap (cancel_all order m) e) \<noteq> Armed"
proof (induction order arbitrary: m)
  case Nil
  then show ?case by simp
next
  case (Cons tid tids)
  show ?case
  proof (cases "k = tid")
    case True
    let ?m1 = "emit (OnCancelled tid)
      ((cancel e (timer_Stop e m))\<lparr>pending := AList.delete tid (pending m)\<rparr>)"
    have a: "cancelled (heap ?m1 e)" "timer (heap ?m1 e) \<noteq> Armed" by simp_all
    have r: "retired (heap ?m1 e) (heap (cancel_all tids ?m1) e)" by (rule cancel_all_retired)
    have "cancelled (heap (cancel_all tids ?m1) e) \<and> timer (heap (cancel_all tids ?m1) e) \<noteq> Armed"
      using a r unfolding retired_def by metis
    then show ?thesis using True Cons.prems(1) by simp
  next
    case False
    then have k: "k \<in> set tids" using Cons.prems(2) by simp
    show ?thesis
    proof (cases "map_of (pending m) tid")
      case None
      then show ?thesis using Cons.IH [OF Cons.prems(1) k] by simp
    next
      case (Some e')
      let ?m1 = "emit (OnCancelled tid)
        ((cancel e' (timer_Stop e' m))\<lparr>pending := AList.delete tid (pending m)\<rparr>)"
      have "map_of (pending ?m1) k = Some e" using Cons.prems(1) False by (simp add: delete_conv')
      then show ?thesis using Cons.IH [of ?m1, OF _ k] Some by simp
    qed
  qed
qed

text \<open>
  Claim C4, as the code has it. Only the first call of Shutdown performs the closing
  transition: it waits for the lock, sets \<open>isClosed\<close>, stops the timer and cancels the
  token of every registered entry, empties the registry, calls \<open>OnCancelled\<close> once for
  each id, and starts the goroutine that waits for the in-flight counter; a later call
  changes nothing. Every call then reads one signal, \<open>shutdownDone\<close>. While it is not
  closed, a call whose deadline has passed returns the deadline error and a call
  whose context is not done blocks; the drain goes on by itself: it waits while the
  counter is positive, and once the counter is zero it closes the signal, after which
  a call with a context that is not done returns nil. The signal stays closed in every
  later state, so every later call with a context that is not done returns nil.
\<close>

theorem C4_shutdown_outcome:
  "(shutdownOnce m1 \<longrightarrow> step (CallShutdown order) m1 = Some m1) \<and>
   (\<not> shutdownOnce m0 \<and> mu_readers m0 = 0 \<and> distinct order \<and>
    set order = set (map fst (pending m0)) \<longrightarrow>
      (\<exists>m. step (CallShutdown order) m0 = Some m \<and> isClosed m \<and> shutdownOnce m \<and>
           drainer m = DWait \<and> pending m = [] \<and> wg m = wg m0 \<and>
           events m = events m0 @ map OnCancelled order \<and>
           (\<forall>k e. map_of (pending m0) k = Some e \<longrightarrow>
              cancelled (heap m e) \<and> timer (heap m e) \<noteq> Armed))) \<and>
   (\<not> shutdownDone m2 \<longrightarrow>
      Shutdown_select m2 (Some DeadlineExceeded) pick = Some (Some DeadlineExceeded) \<and>
      Shutdown_select m2 None pick = None \<and>
      Shutdown_select m2 ctx_err pick \<noteq> Some None) \<and>
   (drainer m2 = DWait \<and> 0 < wg m2 \<longrightarrow> step Drain m2 = None) \<and>
   (drainer m2 = DWait \<and> wg m2 = 0 \<longrightarrow>
      (\<exists>m. exec [Drain, Drain] m2 = Some m \<and> shutdownDone m \<and>
           Shutdown_select m None pick = Some None)) \<and>
   (shutdownDone m3 \<longrightarrow>
      (\<forall>ls m. exec ls m3 = Some m \<longrightarrow>
         shutdownDone m \<and> Shutdown_select m None pick = Some None)) \<and>
   (shutdownDone m2 = shutdownDone m3 \<longrightarrow>
      Shutdown_select m2 ctx_err pick = Shutdown_select m3 ctx_err pick)"
proof -
  have 1: "shutdownOnce m1 \<longrightarrow> step (CallShutdown order) m1 = Some m1"
    by (simp add: step_def)
  have 2: "\<exists>m. step (CallShutdown order) m0 = Some m \<and> isClosed m \<and> shutdownOnce m \<and>
           drainer m = DWait \<and> pending m = [] \<and> wg m = wg m0 \<and>
           events m = events m0 @ map OnCancelled order \<and>
           (\<forall>k e. map_of (pending m0) k = Some e \<longrightarrow>
              cancelled (heap m e) \<and> timer (heap m e) \<noteq> Armed)"
    if a: "\<not> shutdownOnce m0" "mu_readers m0 = 0" "distinct order"
      "set order = set (map fst (pending m0))"
  proof -
    let ?c = "m0\<lparr>isClosed := True\<rparr>"
    have s: "step (CallShutdown order) m0 = Some (Shutdown_once order m0)"
      using a by (simp add: step_def)
    have e: "events (cancel_all order ?c) = events ?c @ map OnCancelled order"
      by (rule cancel_all_events) (use a in auto)
    have p: "pending (cancel_all order ?c) = []"
      using a(4) by (simp add: cancel_all_pending filter_empty_conv)
    have st: "cancelled (heap (cancel_all order ?c) e) \<and> timer (heap (cancel_all order ?c) e) \<noteq> Armed"
      if "map_of (pending m0) k = Some e" for k e
    proof -
      have "k \<in> set order" using that a(4) by (force dest: map_of_SomeD)
      then show ?thesis using cancel_all_stops [of ?c k e order] that by simp
    qed
    show ?thesis
      using s e p st a(1) by (simp add: Shutdown_once_def cancel_all_flags)
  qed
  have 3: "\<not> shutdownDone m2 \<longrightarrow>
      Shutdown_select m2 (Some DeadlineExceeded) pick = Some (Some DeadlineExceeded) \<and>
      Shutdown_select m2 None pick = None \<and>
      Shutdown_select m2 ctx_err pick \<noteq> Some None"
    by (simp add: Shutdown_select_def split: option.splits)
  have 4: "drainer m2 = DWait \<and> 0 < wg m2 \<longrightarrow> step Drain m2 = None"
    by (simp add: step_def drain_step_def)
  have 5: "drainer m2 = DWait \<and> wg m2 = 0 \<longrightarrow>
      (\<exists>m. exec [Drain, Drain] m2 = Some m \<and> shutdownDone m \<and>
           Shutdown_select m None pick = Some None)"
    by (simp add: step_def drain_step_def Shutdown_select_def)
  have 6: "shutdownDone m \<and> Shutdown_select m None pick = Some None"
    if "shutdownDone m3" "exec ls m3 = Some m" for ls m
    using exec_fixed(5) [OF that(2) that(1)] by (simp add: Shutdown_select_def)
  have 7: "shutdownDone m2 = shutdownDone m3 \<longrightarrow>
      Shutdown_select m2 ctx_err pick = Shutdown_select m3 ctx_err pick"
    by (simp add: Shutdown_select_def)
  show ?thesis using 1 2 3 4 5 6 7 by blast
qed

theorem C4_shutdown_outcome_witness:
  "\<not> shutdownOnce busy_manager \<and> wg busy_manager = 1 \<and>
   step (CallShutdown [''retry'']) busy_manager \<noteq> None \<and>
   Shutdown_select (the (step (CallShutdown [''retry'']) busy_manager))
     (Some DeadlineExceeded) True = Some (Some DeadlineExceeded) \<and>
   step Drain (the (step (CallShutdown [''retry'']) busy_manager)) = None \<and>
   shutdownOnce draining_manager \<and> wg draining_manager = 0 \<and>
   step (CallShutdown []) draining_manager = Some draining_manager \<and>
   exec [Drain, Drain] draining_manager \<noteq> None \<and>
   Shutdown_select (the (exec [Drain, Drain] draining_manager)) None True = Some None"
proof -
  define ma where "ma = the (step (CallShutdown [''retry'']) busy_manager)"
  define mb where "mb = the (exec [Drain, Drain] draining_manager)"
  have b: "\<not> shutdownOnce busy_manager" "wg busy_manager = 1" "mu_readers busy_manager = 0"
    "map fst (pending busy_manager) = [''retry'']"
    by (simp_all add: busy_manager_def fire_def run_body_def run_defs)
  have d: "shutdownOnce draining_manager" "wg draining_manager = 0"
    "drainer draining_manager = DWait" "\<not> shutdownDone draining_manager"
    by (simp_all add: draining_manager_def busy_manager_def finish_def fire_def run_body_def
        run_defs)
  note t = C4_shutdown_outcome [of draining_manager "[''retry'']" busy_manager ma
      True None drained_manager]
  note u = C4_shutdown_outcome [of draining_manager "[]" busy_manager draining_manager
      True None drained_manager]
  from t b obtain m where m: "step (CallShutdown [''retry'']) busy_manager = Some m"
    "drainer m = DWait" "wg m = wg busy_manager"
    by auto
  have ma: "ma = m" using m(1) by (simp add: ma_def)
  have sd: "\<not> shutdownDone ma"
    using ma m(1) b
    by (auto simp: step_def Shutdown_once_def cancel_all_flags busy_manager_def fire_def
        run_body_def run_defs)
  have 1: "step (CallShutdown [''retry'']) busy_manager \<noteq> None" using m(1) by simp
  have 2: "Shutdown_select ma (Some DeadlineExceeded) True = Some (Some DeadlineExceeded)"
    using t sd by blast
  have 3: "step Drain ma = None" using t ma m(2,3) b(2) by simp
  have 4: "step (CallShutdown []) draining_manager = Some draining_manager" using u d(1) by blast
  from u d obtain m' where m': "exec [Drain, Drain] draining_manager = Some m'"
    "Shutdown_select m' None True = Some None"
    by blast
  have 5: "exec [Drain, Drain] draining_manager \<noteq> None" using m'(1) by simp
  have 6: "Shutdown_select mb None True = Some None" using m' by (simp add: mb_def)
  show ?thesis using b(1,2) 1 2 3 d(1,2) 4 5 6 unfolding ma_def mb_def by blast
qed

text \<open>
  The claim as the specification states it fails in its last part: after the drain is
  complete, a call whose context is already past its deadline finds both cases of its
  \<open>select\<close> ready and may return the deadline error.
\<close>

theorem C4_counterexample:
  "exec [CallShutdown [], Drain, Drain] (NewManager []) = Some drained_manager \<and>
   shutdownDone drained_manager \<and>
   Shutdown_select drained_manager (Some DeadlineExceeded) False
     = Some (Some DeadlineExceeded)"
  by (simp add: Shutdown_select_def drained_manager_def run_defs)

lemma spent_never_runs:
  assumes "inv_core m" "x < nxt m" "worker (heap m x) = GNone" "spent (timer (heap m x))"
    "exec ls m = Some m'"
  shows "runs (heap m' x) = runs (heap m x)" "worker (heap m' x) = GNone"
    "spent (timer (heap m' x))"
proof -
  have e: "evolves (heap m x) (heap m' x)" using assms(1,5,2) by (rule exec_evolves)
  then show w: "worker (heap m' x) = GNone" and "spent (timer (heap m' x))"
    using assms(3,4) by (simp_all add: evolves_def)
  have "\<not> runs (heap m x) < runs (heap m' x)"
    using e w by (auto simp: evolves_def)
  moreover have "runs (heap m x) \<le> runs (heap m' x)" using e by (simp add: evolves_def)
  ultimately show "runs (heap m' x) = runs (heap m x)" by simp
qed

lemma late_stage_frozen:
  assumes "inv_core m" "x < nxt m" "5 \<le> stage (worker (heap m x))" "exec ls m = Some m'"
  shows "runs (heap m' x) = runs (heap m x)" "eid (heap m' x) = eid (heap m x)"
    "stage (worker (heap m x)) \<le> stage (worker (heap m' x))"
proof -
  have e: "evolves (heap m x) (heap m' x)" using assms(1,4,2) by (rule exec_evolves)
  then show "eid (heap m' x) = eid (heap m x)"
    "stage (worker (heap m x)) \<le> stage (worker (heap m' x))"
    by (simp_all add: evolves_def)
  have "\<not> runs (heap m x) < runs (heap m' x)"
    using e assms(3) by (auto simp: evolves_def)
  moreover have "runs (heap m x) \<le> runs (heap m' x)" using e by (simp add: evolves_def)
  ultimately show "runs (heap m' x) = runs (heap m x)" by simp
qed

lemma worker_lt:
  assumes "inv_alloc m" "worker (heap m x) \<noteq> GNone"
  shows "x < nxt m"
  using inv_allocD [OF assms(1), of x] assms(2) by (cases "x < nxt m") auto




lemma step_GAdmitted:
  "worker (heap m e) = GAdmitted \<Longrightarrow>
   step (Worker e p) m = Some (upd e (\<lambda>x. x\<lparr>start := clock m, worker := GStarted\<rparr>) m)"
  by (simp add: step_def worker_step_def)

lemma step_GStarted:
  "worker (heap m e) = GStarted \<Longrightarrow>
   step (Worker e p) m = Some (upd e (\<lambda>x. x\<lparr>runs := Suc (runs x), worker := GRunning\<rparr>) m)"
  by (simp add: step_def worker_step_def)

lemma step_GRunning:
  "worker (heap m e) = GRunning \<Longrightarrow>
   step (Worker e p) m = Some (upd e (\<lambda>x. x\<lparr>worker := GDelete\<rparr>) m)"
  by (simp add: step_def worker_step_def)

lemma step_delete:
  "worker (heap m e) = GDelete \<or> worker (heap m e) = GDropDelete \<or>
   worker (heap m e) = GWokenDone \<Longrightarrow>
   step (Worker e p) m =
     (if mu_readers m = 0
      then Some (upd e (\<lambda>x. x\<lparr>worker := worker_next m e p\<rparr>)
                   (deleteIfCurrent (eid (heap m e)) e m))
      else None)"
  by (auto simp: step_def worker_step_def worker_next_def)

lemma step_GLog:
  "worker (heap m e) = GLog \<Longrightarrow>
   step (Worker e p) m =
     Some (upd e (\<lambda>x. x\<lparr>worker := GRelease\<rparr>)
             (emit (OnExecuted (eid (heap m e)) (clock m - start (heap m e))) m))"
  by (simp add: step_def worker_step_def)

lemma step_GDropLog:
  "worker (heap m e) = GDropLog \<Longrightarrow>
   step (Worker e p) m =
     Some (upd e (\<lambda>x. x\<lparr>worker := GDropDelete\<rparr>)
             (emit (OnFailed (eid (heap m e)) ErrTaskDropped) m))"
  by (simp add: step_def worker_step_def)

lemma step_GRelease:
  "worker (heap m e) = GRelease \<Longrightarrow>
   step (Worker e p) m = releaseSlot (upd e (\<lambda>x. x\<lparr>worker := GCancel\<rparr>) m)"
  by (simp add: step_def worker_step_def)

lemma step_GCancel:
  "worker (heap m e) = GCancel \<Longrightarrow>
   step (Worker e p) m = Some (upd e (\<lambda>x. x\<lparr>worker := GWgDone\<rparr>) (cancel e m))"
  by (simp add: step_def worker_step_def)

lemma step_GWgDone:
  "worker (heap m e) = GWgDone \<Longrightarrow>
   step (Worker e p) m =
     (if wg m = 0 then None
      else Some ((upd e (\<lambda>x. x\<lparr>worker := GFinished\<rparr>) m)\<lparr>wg := wg m - 1\<rparr>))"
  by (simp add: step_def worker_step_def)






lemma cancel_all_wakes:
  "map_of (pending m) k = Some e \<Longrightarrow> k \<in> set order \<Longrightarrow>
   worker (heap m e) = GWaiting \<or> worker (heap m e) = GWokenDone \<Longrightarrow>
   worker (heap (cancel_all order m) e) = GWokenDone"
proof (induction order arbitrary: m)
  case Nil
  then show ?case by simp
next
  case (Cons tid tids)
  show ?case
  proof (cases "k = tid")
    case True
    let ?m1 = "emit (OnCancelled tid)
      ((cancel e (timer_Stop e m))\<lparr>pending := AList.delete tid (pending m)\<rparr>)"
    have a: "worker (heap ?m1 e) = GWokenDone" using Cons.prems(3) by auto
    have r: "retired (heap ?m1 e) (heap (cancel_all tids ?m1) e)" by (rule cancel_all_retired)
    have "worker (heap (cancel_all tids ?m1) e) = GWokenDone"
      using a r unfolding retired_def by auto
    then show ?thesis using True Cons.prems(1) by simp
  next
    case False
    then have k: "k \<in> set tids" using Cons.prems(2) by simp
    show ?thesis
    proof (cases "map_of (pending m) tid")
      case None
      then show ?thesis using Cons.IH [OF Cons.prems(1) k Cons.prems(3)] by simp
    next
      case (Some e')
      let ?m1 = "emit (OnCancelled tid)
        ((cancel e' (timer_Stop e' m))\<lparr>pending := AList.delete tid (pending m)\<rparr>)"
      have p: "map_of (pending ?m1) k = Some e"
        using Cons.prems(1) False by (simp add: delete_conv')
      have w: "worker (heap ?m1 e) = GWaiting \<or> worker (heap ?m1 e) = GWokenDone"
        using Cons.prems(3) by auto
      show ?thesis using Cons.IH [OF p k w] Some by simp
    qed
  qed
qed

lemma late_worker_silent:
  assumes "worker_step e q m = Some m'" "11 \<le> stage (worker (heap m e))"
  shows "events m' = events m"
  using worker_step_frame(15) [OF assms(1)] assms(2) by auto

text \<open>
  Claim C5. Rejection by the Drop policy: with a limit \<open>n\<close> and the Drop policy, a
  fired task that asks for a slot when all \<open>n\<close> are taken takes the \<open>default\<close> case.
  From there on, whatever the other goroutines do in between, its next steps are the
  call \<open>OnFailed(id, ErrTaskDropped)\<close> and then \<open>deleteIfCurrent(id, e)\<close> (once it has
  the lock), and its task body is never called. \<open>Schedule\<close> itself returns nothing and
  never calls \<open>OnFailed\<close>.
\<close>

theorem C5_drop_rejection:
  assumes "reachable m" "worker (heap m e) = GAcquire" "strategy m = StrategyDrop"
    "semaphore m = Some n" "n \<le> sem_len m"
  shows "(\<exists>m1. step (Worker e p) m = Some m1 \<and> worker (heap m1 e) = GDropLog \<and>
            events m1 = events m \<and> pending m1 = pending m \<and> sem_len m1 = sem_len m \<and>
            (\<forall>ls m2. exec ls m1 = Some m2 \<longrightarrow>
               runs (heap m2 e) = 0 \<and>
               (worker (heap m2 e) = GDropLog \<longrightarrow>
                  step (Worker e q) m2
                  = Some (upd e (\<lambda>x. x\<lparr>worker := GDropDelete\<rparr>)
                            (emit (OnFailed (eid (heap m e)) ErrTaskDropped) m2))) \<and>
               (worker (heap m2 e) = GDropDelete \<longrightarrow>
                  step (Worker e q) m2
                  = (if mu_readers m2 = 0
                     then Some (upd e (\<lambda>x. x\<lparr>worker := GCancel\<rparr>)
                                  (deleteIfCurrent (eid (heap m e)) e m2))
                     else None)))) \<and>
         (\<forall>tid d tk ev. ev \<in> set (events (Schedule tid d tk m)) \<longrightarrow> is_OnFailed ev \<longrightarrow>
            ev \<in> set (events m))"
proof -
  note i = reachable_invariant [OF assms(1)]
  let ?m1 = "upd e (\<lambda>x. x\<lparr>worker := GDropLog\<rparr>) m"
  have acq: "acquireSlot m e p = Default_case"
    using assms(3,4,5) by (simp add: acquireSlot_def)
  have s: "step (Worker e p) m = Some ?m1"
    using assms(2) acq by (simp add: step_def worker_step_def)
  have r1: "reachable ?m1" using assms(1) s by (rule reachable.reach_step)
  note i1 = reachable_invariant [OF r1]
  have lt: "e < nxt ?m1"
    using worker_lt [OF invariantD(3) [OF i], of e] assms(2) by simp
  have r0: "runs (heap ?m1 e) = 0"
    using inv_runsD [OF invariantD(7) [OF i1], of e] by simp
  have c: "runs (heap m2 e) = 0 \<and>
           (worker (heap m2 e) = GDropLog \<longrightarrow>
              step (Worker e q) m2
              = Some (upd e (\<lambda>x. x\<lparr>worker := GDropDelete\<rparr>)
                        (emit (OnFailed (eid (heap m e)) ErrTaskDropped) m2))) \<and>
           (worker (heap m2 e) = GDropDelete \<longrightarrow>
              step (Worker e q) m2
              = (if mu_readers m2 = 0
                 then Some (upd e (\<lambda>x. x\<lparr>worker := GCancel\<rparr>)
                              (deleteIfCurrent (eid (heap m e)) e m2))
                 else None))"
    if e: "exec ls ?m1 = Some m2" for ls m2
  proof -
    have st: "5 \<le> stage (worker (heap ?m1 e))" by simp
    note f = late_stage_frozen [OF invariantD(1) [OF i1] lt st e]
    have id: "eid (heap m2 e) = eid (heap m e)" using f(2) by simp
    have a: "runs (heap m2 e) = 0" using f(1) r0 by simp
    have b: "worker (heap m2 e) = GDropLog \<longrightarrow>
              step (Worker e q) m2
              = Some (upd e (\<lambda>x. x\<lparr>worker := GDropDelete\<rparr>)
                        (emit (OnFailed (eid (heap m e)) ErrTaskDropped) m2))"
      using step_GDropLog [of m2 e q] id by simp
    have d: "worker (heap m2 e) = GDropDelete \<longrightarrow>
              step (Worker e q) m2
              = (if mu_readers m2 = 0
                 then Some (upd e (\<lambda>x. x\<lparr>worker := GCancel\<rparr>)
                              (deleteIfCurrent (eid (heap m e)) e m2))
                 else None)"
      using step_delete [of m2 e q] id by (simp add: worker_next_def)
    show ?thesis using a b d by blast
  qed
  have sch: "ev \<in> set (events m)"
    if "ev \<in> set (events (Schedule tid d tk m))" "is_OnFailed ev" for tid d tk ev
    using that by (cases "isClosed m") (auto simp: Schedule_closed Schedule_events split: option.splits)
  have "step (Worker e p) m = Some ?m1 \<and> worker (heap ?m1 e) = GDropLog \<and>
        events ?m1 = events m \<and> pending ?m1 = pending m \<and> sem_len ?m1 = sem_len m"
    using s by simp
  then show ?thesis using c sch by blast
qed

theorem C5_drop_rejection_witness:
  "worker (heap drop_state 1) = GAcquire \<and> strategy drop_state = StrategyDrop \<and>
   semaphore drop_state = Some 1 \<and> sem_len drop_state = 1 \<and>
   exec [Worker 1 True, Worker 1 False, Worker 1 True] drop_state \<noteq> None \<and>
   events (the (exec [Worker 1 True, Worker 1 False, Worker 1 True] drop_state))
     = [OnScheduled ''a'' 0, OnScheduled ''b'' 0, OnFailed ''b'' ErrTaskDropped] \<and>
   map_of (pending (the (exec [Worker 1 True, Worker 1 False, Worker 1 True] drop_state))) ''b''
     = None \<and>
   runs (heap (the (exec [Worker 1 True, Worker 1 False, Worker 1 True] drop_state)) 1) = 0"
proof -
  define ls where "ls = [Worker 1 True, Worker 1 False, Worker 1 True]"
  define m3 where "m3 = the (exec ls drop_state)"
  have e: "exec occupy (NewManager [WithLimit 1 StrategyDrop]) = Some drop_state"
    by (simp add: drop_state_def occupy_def fire_def run_body_def run_defs)
  have "reachable (NewManager [WithLimit 1 StrategyDrop])"
    by (rule reachable.reach_start) (auto simp: is_Option_def)
  then have r: "reachable drop_state" using e by (rule exec_reachable)
  have a: "worker (heap drop_state 1) = GAcquire" "strategy drop_state = StrategyDrop"
    "semaphore drop_state = Some 1" "sem_len drop_state = 1"
    by (simp_all add: drop_state_def occupy_def fire_def run_body_def run_defs)
  have x: "exec ls drop_state = Some m3"
    "events m3 = [OnScheduled ''a'' 0, OnScheduled ''b'' 0, OnFailed ''b'' ErrTaskDropped]"
    "map_of (pending m3) ''b'' = None"
    by (simp_all add: m3_def ls_def drop_state_def occupy_def fire_def run_body_def run_defs)
  have le: "(1::nat) \<le> sem_len drop_state" using a(4) by simp
  from C5_drop_rejection [OF r a(1,2,3) le, of True True]
  obtain m1 where m1: "step (Worker 1 True) drop_state = Some m1"
    "\<forall>ls m2. exec ls m1 = Some m2 \<longrightarrow> runs (heap m2 1) = 0"
    by blast
  have "exec [Worker 1 False, Worker 1 True] m1 = Some m3"
    using x(1) m1(1) by (simp add: ls_def)
  then have 4: "runs (heap m3 1) = 0" using m1(2) by blast
  have 1: "exec ls drop_state \<noteq> None" using x(1) by simp
  show ?thesis using a 1 x(2,3) 4 unfolding m3_def ls_def by blast
qed

text \<open>
  Claim C6. Cancellation while waiting under the Block policy: when the goroutine of
  an entry is parked in the blocking \<open>select\<close> of \<open>acquireSlot\<close> and the token is
  cancelled by \<open>Cancel\<close>, by a \<open>Schedule\<close> of the same id or by \<open>Shutdown\<close>, the
  goroutine is woken on the case \<open>ctx.Done()\<close>, and the entry is no longer the current
  one. From there on, whatever happens in between, the task body is never called, no
  step of this goroutine calls the telemetry handler, and its next step is
  \<open>deleteIfCurrent(id, e)\<close>.
\<close>

theorem C6_cancel_while_waiting:
  assumes "reachable m" "worker (heap m e) = GWaiting"
    "map_of (pending m) (eid (heap m e)) = Some e"
    "l = CallCancel (eid (heap m e)) \<or>
     (l = CallSchedule (eid (heap m e)) d tk \<and> \<not> isClosed m) \<or>
     (l = CallShutdown order \<and> \<not> shutdownOnce m)"
    "step l m = Some m1"
  shows "worker (heap m1 e) = GWokenDone \<and> cancelled (heap m1 e) \<and> e \<notin> set (sendq m1) \<and>
         map_of (pending m1) (eid (heap m e)) \<noteq> Some e \<and>
         (\<forall>ls m2. exec ls m1 = Some m2 \<longrightarrow>
            runs (heap m2 e) = 0 \<and>
            (\<forall>q m3. step (Worker e q) m2 = Some m3 \<longrightarrow>
               events m3 = events m2 \<and>
               (worker (heap m2 e) = GWokenDone \<longrightarrow>
                  m3 = upd e (\<lambda>x. x\<lparr>worker := GCancel\<rparr>)
                         (deleteIfCurrent (eid (heap m e)) e m2))))"
proof -
  note i = reachable_invariant [OF assms(1)]
  have r1: "reachable m1" using assms(1,5) by (rule reachable.reach_step)
  note i1 = reachable_invariant [OF r1]
  let ?k = "eid (heap m e)"
  have lt: "e < nxt m" using invariantD(12) [OF i] assms(3) by (simp add: inv_pending_def)
  have a: "worker (heap m1 e) = GWokenDone \<and> cancelled (heap m1 e) \<and>
           map_of (pending m1) ?k \<noteq> Some e"
    using assms(4)
  proof (elim disjE conjE)
    assume "l = CallCancel ?k"
    then have "m1 = Cancel ?k m" using assms(5) by (auto simp: step_def split: if_splits)
    then show ?thesis using assms(2,3) by (simp add: Cancel_def delete_conv')
  next
    assume "l = CallSchedule ?k d tk" "\<not> isClosed m"
    then have "m1 = Schedule ?k d tk m" using assms(5) by (auto simp: step_def split: if_splits)
    then show ?thesis
      using assms(2,3) lt \<open>\<not> isClosed m\<close> by (simp add: Schedule_def Let_def update_conv')
  next
    assume s: "l = CallShutdown order" "\<not> shutdownOnce m"
    then have m1: "m1 = Shutdown_once order m" and o: "set order = set (map fst (pending m))"
      using assms(5) by (auto simp: step_def split: if_splits)
    have k: "?k \<in> set order" using o assms(3) by (force dest: map_of_SomeD)
    let ?c = "m\<lparr>isClosed := True\<rparr>"
    have "worker (heap (cancel_all order ?c) e) = GWokenDone"
      using cancel_all_wakes [of ?c ?k e order] assms(2,3) k by simp
    moreover have "cancelled (heap (cancel_all order ?c) e)"
      using cancel_all_stops [of ?c ?k e order] assms(3) k by simp
    moreover have "pending (cancel_all order ?c) = []"
      using o by (simp add: cancel_all_pending filter_empty_conv)
    ultimately show ?thesis using s(2) by (simp add: m1 Shutdown_once_def)
  qed
  have q: "e \<notin> set (sendq m1)"
    using inv_sendqD [OF invariantD(8) [OF i1], of e] a by auto
  have id1: "eid (heap m1 e) = ?k"
    using step_evolves [OF invariantD(1) [OF i] assms(5) lt] by (simp add: evolves_def)
  have lt1: "e < nxt m1" using lt step_nxt [OF assms(5)] by simp
  have r0: "runs (heap m1 e) = 0"
    using inv_runsD [OF invariantD(7) [OF i1], of e] a by simp
  have c: "runs (heap m2 e) = 0 \<and>
            (\<forall>q m3. step (Worker e q) m2 = Some m3 \<longrightarrow>
               events m3 = events m2 \<and>
               (worker (heap m2 e) = GWokenDone \<longrightarrow>
                  m3 = upd e (\<lambda>x. x\<lparr>worker := GCancel\<rparr>)
                         (deleteIfCurrent ?k e m2)))"
    if e: "exec ls m1 = Some m2" for ls m2
  proof -
    have st: "5 \<le> stage (worker (heap m1 e))" using a by simp
    note f = late_stage_frozen [OF invariantD(1) [OF i1] lt1 st e]
    have s11: "11 \<le> stage (worker (heap m2 e))" using f(3) a by simp
    have id: "eid (heap m2 e) = ?k" using f(2) id1 by simp
    have "events m3 = events m2 \<and>
               (worker (heap m2 e) = GWokenDone \<longrightarrow>
                  m3 = upd e (\<lambda>x. x\<lparr>worker := GCancel\<rparr>) (deleteIfCurrent ?k e m2))"
      if w: "step (Worker e q) m2 = Some m3" for q m3
    proof -
      have "worker_step e q m2 = Some m3" using w by (simp add: step_def)
      then have "events m3 = events m2" using s11 by (rule late_worker_silent)
      moreover have "worker (heap m2 e) = GWokenDone \<longrightarrow>
                  m3 = upd e (\<lambda>x. x\<lparr>worker := GCancel\<rparr>) (deleteIfCurrent ?k e m2)"
        using step_delete [of m2 e q] w id by (auto simp: worker_next_def split: if_splits)
      ultimately show ?thesis by simp
    qed
    then show ?thesis using f(1) r0 by simp
  qed
  show ?thesis using a q c by blast
qed

theorem C6_cancel_while_waiting_witness:
  "worker (heap waiting_state 1) = GWaiting \<and> eid (heap waiting_state 1) = ''b'' \<and>
   map_of (pending waiting_state) ''b'' = Some 1 \<and>
   step (CallCancel ''b'') waiting_state \<noteq> None \<and>
   worker (heap (the (step (CallCancel ''b'') waiting_state)) 1) = GWokenDone \<and>
   exec (finish 0 @ [Worker 1 True, Worker 1 True, Worker 1 True])
     (the (step (CallCancel ''b'') waiting_state)) \<noteq> None \<and>
   runs (heap (the (exec (finish 0 @ [Worker 1 True, Worker 1 True, Worker 1 True])
                      (the (step (CallCancel ''b'') waiting_state)))) 1) = 0 \<and>
   events (the (exec (finish 0 @ [Worker 1 True, Worker 1 True, Worker 1 True])
                  (the (step (CallCancel ''b'') waiting_state))))
     = [OnScheduled ''a'' 0, OnScheduled ''b'' 0, OnCancelled ''b'', OnExecuted ''a'' 0]"
proof -
  define ls where "ls = finish 0 @ [Worker 1 True, Worker 1 True, Worker 1 True]"
  define m1 where "m1 = the (step (CallCancel ''b'') waiting_state)"
  define m2 where "m2 = the (exec ls m1)"
  have e: "exec (occupy @ [Worker 1 True]) (NewManager [WithLimit 1 StrategyBlock])
           = Some waiting_state"
    by (simp add: waiting_state_def occupy_def fire_def run_body_def run_defs)
  have "reachable (NewManager [WithLimit 1 StrategyBlock])"
    by (rule reachable.reach_start) (auto simp: is_Option_def)
  then have r: "reachable waiting_state" using e by (rule exec_reachable)
  have a: "worker (heap waiting_state 1) = GWaiting" "eid (heap waiting_state 1) = ''b''"
    "map_of (pending waiting_state) ''b'' = Some 1" "mu_readers waiting_state = 0"
    by (simp_all add: waiting_state_def occupy_def fire_def run_body_def run_defs)
  have s: "step (CallCancel ''b'') waiting_state = Some m1"
    using a(4) by (simp add: m1_def step_def)
  have x: "exec ls m1 = Some m2"
    "events m2 = [OnScheduled ''a'' 0, OnScheduled ''b'' 0, OnCancelled ''b'', OnExecuted ''a'' 0]"
    by (simp_all add: m2_def m1_def ls_def finish_def waiting_state_def occupy_def fire_def
        run_body_def run_defs)
  have p: "map_of (pending waiting_state) (eid (heap waiting_state 1)) = Some 1"
    using a(2,3) by simp
  have l: "CallCancel ''b'' = CallCancel (eid (heap waiting_state 1)) \<or>
     (CallCancel ''b'' = CallSchedule (eid (heap waiting_state 1)) 0 0 \<and>
      \<not> isClosed waiting_state) \<or>
     (CallCancel ''b'' = CallShutdown [] \<and> \<not> shutdownOnce waiting_state)"
    using a(2) by simp
  note t = C6_cancel_while_waiting [OF r a(1) p l s]
  have 1: "worker (heap m1 1) = GWokenDone" using t by blast
  from t have "\<forall>ls m2. exec ls m1 = Some m2 \<longrightarrow> runs (heap m2 1) = 0" by blast
  then have 2: "runs (heap m2 1) = 0" using x(1) by blast
  have 3: "step (CallCancel ''b'') waiting_state \<noteq> None" using s by simp
  have 4: "exec ls m1 \<noteq> None" using x(1) by simp
  show ?thesis using a(1,2,3) 3 1 4 2 x(2) unfolding m2_def m1_def ls_def by blast
qed

lemma step_isClosed:
  assumes "step l m = Some m'" "isClosed m' \<noteq> isClosed m"
  shows "mu_readers m = 0"
proof (cases l)
  case (CallSchedule tid d tk)
  then show ?thesis using assms by (auto simp: step_def Schedule_flags split: if_splits)
next
  case (CallCancel tid)
  then show ?thesis using assms by (auto simp: step_def Cancel_flags split: if_splits)
next
  case (CallShutdown order)
  then show ?thesis using assms by (auto simp: step_def split: if_splits)
next
  case Drain
  then show ?thesis
    using assms by (auto simp: step_def drain_step_def split: drain_pc.splits if_splits)
next
  case (Tick n)
  then show ?thesis using assms by (auto simp: step_def)
next
  case (Timer e)
  then show ?thesis using assms timer_step_frame(7) [of e m m'] by (simp add: step_def)
next
  case (Worker e p)
  then show ?thesis using assms worker_step_frame(5) [of e p m m'] by (simp add: step_def)
qed

lemma no_readers:
  assumes "inv_mu m" "inv_alloc m" "mu_readers m = 0"
  shows "\<not> holds_rlock (timer (heap m e))"
proof (cases "e < nxt m")
  case True
  have "count_if (\<lambda>x. holds_rlock (timer x)) m = 0" using assms(1,3) by (simp add: inv_mu_def)
  then show ?thesis using True by (rule count_if_zero)
next
  case False
  then show ?thesis using inv_allocD [OF assms(2), of e] by simp
qed

lemma timer_lt:
  assumes "inv_alloc m" "timer (heap m x) \<noteq> Stopped"
  shows "x < nxt m"
  using inv_allocD [OF assms(1), of x] assms(2) by (cases "x < nxt m") auto

text \<open>
  Claim C7. The race between a firing timer and Shutdown: the counter of the lock is
  the number of callbacks between \<open>RLock\<close> and \<open>RUnlock\<close>, and the counter of the
  WaitGroup is the number of goroutines started by \<open>wg.Go\<close> that have not called
  \<open>Done\<close>. \<open>isClosed\<close> changes only in a step taken while no callback holds the read
  lock. A callback that has seen the Manager open and is about to call \<open>wg.Go\<close> holds
  the read lock, the Manager is still open and the drain has not begun. A callback
  that has seen it closed has started nothing; once it returns, its token is
  cancelled, and its task body is never called in any continuation. A callback that
  went the other way has its goroutine counted. While a goroutine is counted the
  drain is not observed complete, and once the drain wait has returned no callback is
  deciding and no goroutine is in flight.
\<close>

theorem C7_fire_shutdown_exclusion:
  assumes "reachable m"
  shows "mu_readers m = count_if (\<lambda>x. holds_rlock (timer x)) m \<and>
         wg m = count_if (\<lambda>x. inflight (worker x)) m \<and>
         (\<forall>l m'. step l m = Some m' \<longrightarrow> isClosed m' \<noteq> isClosed m \<longrightarrow>
            mu_readers m = 0 \<and> (\<forall>e. \<not> holds_rlock (timer (heap m e)))) \<and>
         (\<forall>e. timer (heap m e) = SawOpen \<longrightarrow>
            \<not> isClosed m \<and> drainer m = DNone \<and> 0 < mu_readers m) \<and>
         (\<forall>e. timer (heap m e) = GoUnlock \<longrightarrow> worker (heap m e) \<noteq> GNone) \<and>
         (\<forall>e. timer (heap m e) = SawClosed \<or> timer (heap m e) = AbortUnlock \<longrightarrow>
            isClosed m \<and> worker (heap m e) = GNone) \<and>
         (\<forall>e. timer (heap m e) = Returned \<longrightarrow>
            worker (heap m e) \<noteq> GNone \<or> cancelled (heap m e) \<and> isClosed m) \<and>
         (\<forall>e ls m'.
            worker (heap m e) = GNone \<and>
            (timer (heap m e) = SawClosed \<or> timer (heap m e) = AbortUnlock \<or>
             timer (heap m e) = Returned) \<longrightarrow>
            exec ls m = Some m' \<longrightarrow> runs (heap m' e) = 0 \<and> worker (heap m' e) = GNone) \<and>
         (\<forall>e. inflight (worker (heap m e)) \<longrightarrow>
            0 < wg m \<and> drainer m \<noteq> DClose \<and> drainer m \<noteq> DDone \<and> \<not> shutdownDone m) \<and>
         (drainer m = DClose \<or> drainer m = DDone \<or> shutdownDone m \<longrightarrow>
            wg m = 0 \<and> (\<forall>e. timer (heap m e) \<noteq> SawOpen \<and> \<not> inflight (worker (heap m e))))"
proof -
  note i = reachable_invariant [OF assms]
  note d = invariantD [OF i]
  have 1: "mu_readers m = count_if (\<lambda>x. holds_rlock (timer x)) m"
    using d(4) by (simp add: inv_mu_def)
  have 2: "wg m = count_if (\<lambda>x. inflight (worker x)) m"
    using d(5) by (simp add: inv_wg_def)
  have 3: "mu_readers m = 0 \<and> (\<forall>e. \<not> holds_rlock (timer (heap m e)))"
    if "step l m = Some m'" "isClosed m' \<noteq> isClosed m" for l m'
    using step_isClosed [OF that] no_readers [OF d(4) d(3)] by blast
  have dr: "drainer m \<noteq> DNone \<longrightarrow> isClosed m"
    and dd: "shutdownDone m = (drainer m = DDone)"
    and dw: "drainer m = DClose \<or> drainer m = DDone \<longrightarrow> wg m = 0"
    using d(11) by (auto simp: inv_drain_def)
  have 4: "\<not> isClosed m \<and> drainer m = DNone \<and> 0 < mu_readers m"
    if t: "timer (heap m e) = SawOpen" for e
  proof -
    have o: "\<not> isClosed m" using inv_openD [OF d(10) t] .
    have "e < nxt m" using timer_lt [OF d(3), of e] t by simp
    then have "0 < count_if (\<lambda>x. holds_rlock (timer x)) m"
      by (rule count_if_pos) (simp add: t)
    then show ?thesis using o dr 1 by auto
  qed
  note fd = inv_firedD [OF d(13)]
  have 5: "worker (heap m e) \<noteq> GNone" if "timer (heap m e) = GoUnlock" for e
    using fd(1) [OF that] .
  have 6: "isClosed m \<and> worker (heap m e) = GNone"
    if t: "timer (heap m e) = SawClosed \<or> timer (heap m e) = AbortUnlock" for e
  proof -
    have "worker (heap m e) = GNone"
    proof (rule ccontr)
      assume "worker (heap m e) \<noteq> GNone"
      from inv_spawnD [OF d(6) this] t show False by auto
    qed
    moreover have "isClosed m" using t fd(2,3) [of e] by blast
    ultimately show ?thesis by simp
  qed
  have 7: "worker (heap m e) \<noteq> GNone \<or> cancelled (heap m e) \<and> isClosed m"
    if "timer (heap m e) = Returned" for e
    using fd(5) [OF that] by blast
  have 8: "runs (heap m' e) = 0 \<and> worker (heap m' e) = GNone"
    if w: "worker (heap m e) = GNone"
      and t: "timer (heap m e) = SawClosed \<or> timer (heap m e) = AbortUnlock \<or>
             timer (heap m e) = Returned"
      and e: "exec ls m = Some m'" for e ls m'
  proof -
    have lt: "e < nxt m" using timer_lt [OF d(3), of e] t by auto
    have sp: "spent (timer (heap m e))" using t by auto
    have "runs (heap m e) = 0" using inv_runsD [OF d(7), of e] w by simp
    then show ?thesis using spent_never_runs(1,2) [OF d(1) lt w sp e] by simp
  qed
  have 9: "0 < wg m \<and> drainer m \<noteq> DClose \<and> drainer m \<noteq> DDone \<and> \<not> shutdownDone m"
    if f: "inflight (worker (heap m e))" for e
  proof -
    have "worker (heap m e) \<noteq> GNone" using f by auto
    then have "e < nxt m" by (rule worker_lt [OF d(3)])
    then have "0 < count_if (\<lambda>x. inflight (worker x)) m"
      by (rule count_if_pos) (rule f)
    then show ?thesis using 2 dw dd by auto
  qed
  have 10: "wg m = 0 \<and> (\<forall>e. timer (heap m e) \<noteq> SawOpen \<and> \<not> inflight (worker (heap m e)))"
    if "drainer m = DClose \<or> drainer m = DDone \<or> shutdownDone m"
  proof -
    have x: "drainer m = DClose \<or> drainer m = DDone" using that dd by auto
    then have z: "wg m = 0" using dw by simp
    have "drainer m \<noteq> DNone" using x by auto
    then have c: "isClosed m" using dr by simp
    have "timer (heap m e) \<noteq> SawOpen \<and> \<not> inflight (worker (heap m e))" for e
      using inv_openD [OF d(10), of e] c 9 [of e] z by auto
    then show ?thesis using z by simp
  qed
  show ?thesis using 1 2 3 4 5 6 7 8 9 10 by blast
qed

theorem C7_fire_shutdown_exclusion_witness:
  "timer (heap race_open_state 0) = SawOpen \<and> \<not> isClosed race_open_state \<and>
   mu_readers race_open_state = 1 \<and>
   step (CallShutdown [''r'']) race_open_state = None \<and>
   exec [Timer 0, Timer 0, CallShutdown [''r'']] race_open_state \<noteq> None \<and>
   wg (the (exec [Timer 0, Timer 0, CallShutdown [''r'']] race_open_state)) = 1 \<and>
   step Drain (the (exec [Timer 0, Timer 0, CallShutdown [''r'']] race_open_state)) = None \<and>
   timer (heap race_excluded_state 0) = Returned \<and>
   worker (heap race_excluded_state 0) = GNone \<and>
   cancelled (heap race_excluded_state 0) \<and> isClosed race_excluded_state \<and>
   exec [Drain, Drain, Tick 5] race_excluded_state \<noteq> None \<and>
   runs (heap (the (exec [Drain, Drain, Tick 5] race_excluded_state)) 0) = 0"
proof -
  define mo where "mo = the (exec [Timer 0, Timer 0, CallShutdown [''r'']] race_open_state)"
  define mx where "mx = the (exec [Drain, Drain, Tick 5] race_excluded_state)"
  have n: "reachable (NewManager [])" by (rule reachable.reach_start) simp
  have "exec [CallSchedule ''r'' 0 1, Timer 0, Timer 0, Timer 0] (NewManager [])
        = Some race_open_state"
    by (simp add: race_open_state_def run_defs)
  then have ro: "reachable race_open_state" by (rule exec_reachable [OF n])
  have "exec [CallSchedule ''r'' 0 1, Timer 0, CallShutdown [''r''], Timer 0, Timer 0,
                Timer 0, Timer 0] (NewManager []) = Some race_excluded_state"
    by (simp add: race_excluded_state_def run_defs)
  then have rx: "reachable race_excluded_state" by (rule exec_reachable [OF n])
  have a: "timer (heap race_open_state 0) = SawOpen" "mu_readers race_open_state = 1"
    "step (CallShutdown [''r'']) race_open_state = None"
    by (simp_all add: race_open_state_def run_defs)
  have b: "exec [Timer 0, Timer 0, CallShutdown [''r'']] race_open_state = Some mo"
    "wg mo = 1" "step Drain mo = None"
    by (simp_all add: mo_def race_open_state_def run_defs)
  have c: "timer (heap race_excluded_state 0) = Returned"
    "worker (heap race_excluded_state 0) = GNone"
    by (simp_all add: race_excluded_state_def run_defs)
  have x: "exec [Drain, Drain, Tick 5] race_excluded_state = Some mx"
    by (simp add: mx_def race_excluded_state_def run_defs)
  note to = C7_fire_shutdown_exclusion [OF ro]
  note tx = C7_fire_shutdown_exclusion [OF rx]
  have 1: "\<not> isClosed race_open_state" using to a(1) by blast
  have 2: "cancelled (heap race_excluded_state 0) \<and> isClosed race_excluded_state"
    using tx c by blast
  from tx have "\<forall>e ls m'.
            worker (heap race_excluded_state e) = GNone \<and>
            (timer (heap race_excluded_state e) = SawClosed \<or>
             timer (heap race_excluded_state e) = AbortUnlock \<or>
             timer (heap race_excluded_state e) = Returned) \<longrightarrow>
            exec ls race_excluded_state = Some m' \<longrightarrow>
            runs (heap m' e) = 0 \<and> worker (heap m' e) = GNone"
    by blast
  then have 3: "runs (heap mx 0) = 0" using c x by blast
  have 4: "exec [Timer 0, Timer 0, CallShutdown [''r'']] race_open_state \<noteq> None"
    using b(1) by simp
  have 5: "exec [Drain, Drain, Tick 5] race_excluded_state \<noteq> None" using x by simp
  show ?thesis using a 1 4 b(2,3) c 2 5 3 unfolding mo_def mx_def by blast
qed

text \<open>
  Claim C9, as the code has it. After \<open>acquireSlot\<close> has returned true, the goroutine
  of an entry, left to run, does this in this order: it records the start time; it
  calls the task body; when the body has returned (here after \<open>t\<close> nanoseconds) it
  removes the entry from the registry if it is still the current one; it calls
  \<open>OnExecuted\<close> with the elapsed time; only then the deferred calls run, first
  \<open>releaseSlot\<close> (which frees the slot or hands it to the oldest parked sender), then
  \<open>cancel\<close>. Up to and including the call of \<open>OnExecuted\<close> the slot is still held.
\<close>

theorem C9_execution_order:
  assumes "worker (heap m e) = GAdmitted" "mu_readers m = 0"
    "semaphore m = None \<or> 0 < sem_len m" "e \<notin> set (sendq m)"
  shows "\<exists>m1 m2 m3 m4 m5 m6 m7.
     step (Worker e p) m = Some m1 \<and> start (heap m1 e) = clock m \<and>
       runs (heap m1 e) = runs (heap m e) \<and>
     step (Worker e p) m1 = Some m2 \<and> worker (heap m2 e) = GRunning \<and>
       runs (heap m2 e) = Suc (runs (heap m e)) \<and>
     exec [Tick t, Worker e p] m2 = Some m3 \<and> pending m3 = pending m \<and>
       events m3 = events m \<and> sem_len m3 = sem_len m \<and>
     step (Worker e p) m3 = Some m4 \<and>
       pending m4 = pending (deleteIfCurrent (eid (heap m e)) e m) \<and>
       events m4 = events m \<and> sem_len m4 = sem_len m \<and>
     step (Worker e p) m4 = Some m5 \<and>
       events m5 = events m @ [OnExecuted (eid (heap m e)) (int t)] \<and>
       sem_len m5 = sem_len m \<and> sendq m5 = sendq m \<and>
       cancelled (heap m5 e) = cancelled (heap m e) \<and>
     step (Worker e p) m5 = Some m6 \<and>
       sem_len m6 = (if semaphore m = None \<or> sendq m \<noteq> [] then sem_len m else sem_len m - 1) \<and>
       sendq m6 = (if semaphore m = None then sendq m else tl (sendq m)) \<and>
       (semaphore m \<noteq> None \<longrightarrow> (\<forall>w \<in> set (take 1 (sendq m)). worker (heap m6 w) = GAdmitted)) \<and>
       events m6 = events m5 \<and> cancelled (heap m6 e) = cancelled (heap m e) \<and>
     step (Worker e p) m6 = Some m7 \<and> cancelled (heap m7 e) \<and>
       worker (heap m7 e) = GWgDone \<and> wg m7 = wg m \<and> runs (heap m7 e) = Suc (runs (heap m e))"
proof -
  define m1 where "m1 = upd e (\<lambda>x. x\<lparr>start := clock m, worker := GStarted\<rparr>) m"
  define m2 where "m2 = upd e (\<lambda>x. x\<lparr>runs := Suc (runs x), worker := GRunning\<rparr>) m1"
  define m3 where "m3 = upd e (\<lambda>x. x\<lparr>worker := GDelete\<rparr>) (m2\<lparr>clock := clock m2 + int t\<rparr>)"
  define m4 where "m4 = upd e (\<lambda>x. x\<lparr>worker := GLog\<rparr>) (deleteIfCurrent (eid (heap m3 e)) e m3)"
  define m5 where "m5 = upd e (\<lambda>x. x\<lparr>worker := GRelease\<rparr>)
                          (emit (OnExecuted (eid (heap m4 e)) (clock m4 - start (heap m4 e))) m4)"
  define m5' where "m5' = upd e (\<lambda>x. x\<lparr>worker := GCancel\<rparr>) m5"
  define m6 where "m6 = the (releaseSlot m5')"
  define m7 where "m7 = upd e (\<lambda>x. x\<lparr>worker := GWgDone\<rparr>) (cancel e m6)"
  have s1: "step (Worker e p) m = Some m1" unfolding m1_def using assms(1) by (rule step_GAdmitted)
  have p1: "start (heap m1 e) = clock m" "runs (heap m1 e) = runs (heap m e)"
    "worker (heap m1 e) = GStarted"
    by (simp_all add: m1_def)
  have s2: "step (Worker e p) m1 = Some m2" unfolding m2_def using p1(3) by (rule step_GStarted)
  have p2: "worker (heap m2 e) = GRunning" "runs (heap m2 e) = Suc (runs (heap m e))"
    by (simp_all add: m2_def m1_def)
  have s3: "exec [Tick t, Worker e p] m2 = Some m3"
    using p2(1) by (simp add: m3_def step_def worker_step_def)
  have p3: "pending m3 = pending m" "events m3 = events m" "sem_len m3 = sem_len m"
    "worker (heap m3 e) = GDelete" "mu_readers m3 = 0" "eid (heap m3 e) = eid (heap m e)"
    "clock m3 = clock m + int t" "start (heap m3 e) = clock m"
    using assms(2) by (simp_all add: m3_def m2_def m1_def)
  have s4: "step (Worker e p) m3 = Some m4"
    using step_delete [of m3 e p] p3(4,5) by (simp add: m4_def worker_next_def)
  have p4: "pending m4 = pending (deleteIfCurrent (eid (heap m e)) e m)" "events m4 = events m"
    "sem_len m4 = sem_len m" "worker (heap m4 e) = GLog" "eid (heap m4 e) = eid (heap m e)"
    "clock m4 - start (heap m4 e) = int t"
    using p3 by (simp_all add: m4_def)
  have s5: "step (Worker e p) m4 = Some m5" unfolding m5_def using p4(4) by (rule step_GLog)
  have p5: "events m5 = events m @ [OnExecuted (eid (heap m e)) (int t)]"
    "sem_len m5 = sem_len m" "sendq m5 = sendq m" "cancelled (heap m5 e) = cancelled (heap m e)"
    "worker (heap m5 e) = GRelease" "semaphore m5 = semaphore m" "wg m5 = wg m"
    "runs (heap m5 e) = Suc (runs (heap m e))"
    using p4 by (simp_all add: m5_def m4_def m3_def m2_def m1_def)
  have s6': "step (Worker e p) m5 = releaseSlot m5'"
    unfolding m5'_def using p5(5) by (rule step_GRelease)
  have q5: "semaphore m5' = semaphore m" "sem_len m5' = sem_len m" "sendq m5' = sendq m"
    using p5 by (simp_all add: m5'_def)
  have rel: "releaseSlot m5' = Some m6 \<and>
       sem_len m6 = (if semaphore m = None \<or> sendq m \<noteq> [] then sem_len m else sem_len m - 1) \<and>
       sendq m6 = (if semaphore m = None then sendq m else tl (sendq m)) \<and>
       (semaphore m \<noteq> None \<longrightarrow> (\<forall>w \<in> set (take 1 (sendq m)). worker (heap m6 w) = GAdmitted)) \<and>
       events m6 = events m5 \<and> cancelled (heap m6 e) = cancelled (heap m e) \<and>
       worker (heap m6 e) = GCancel \<and> wg m6 = wg m \<and> runs (heap m6 e) = Suc (runs (heap m e))"
  proof (cases "semaphore m")
    case None
    then have "releaseSlot m5' = Some m5'" using q5 by (simp add: releaseSlot_def)
    then show ?thesis using None p5 by (simp add: m6_def m5'_def)
  next
    case (Some cap)
    then have pos: "0 < sem_len m" using assms(3) by simp
    show ?thesis
    proof (cases "sendq m")
      case Nil
      then have "releaseSlot m5' = Some (m5'\<lparr>sem_len := sem_len m5' - 1\<rparr>)"
        using Some pos q5 by (simp add: releaseSlot_def)
      then show ?thesis using Some Nil p5 q5 by (simp add: m6_def m5'_def)
    next
      case (Cons w ws)
      then have ne: "w \<noteq> e" using assms(4) by auto
      have "releaseSlot m5'
            = Some ((upd w (\<lambda>x. x\<lparr>worker := GAdmitted\<rparr>) m5')\<lparr>sendq := ws\<rparr>)"
        using Some Cons pos q5 by (simp add: releaseSlot_def)
      then show ?thesis using Some Cons p5 q5 ne by (simp add: m6_def m5'_def)
    qed
  qed
  have s6: "step (Worker e p) m5 = Some m6" using s6' rel by simp
  have s7: "step (Worker e p) m6 = Some m7"
    unfolding m7_def using rel by (intro step_GCancel) simp
  have p7: "cancelled (heap m7 e)" "worker (heap m7 e) = GWgDone" "wg m7 = wg m"
    "runs (heap m7 e) = Suc (runs (heap m e))"
    using rel by (simp_all add: m7_def)
  show ?thesis
    using s1 p1(1,2) s2 p2 s3 p3(1,2,3) s4 p4(1,2,3) s5 p5(1,2,3,4) s6 rel s7 p7 by blast
qed

theorem C9_execution_order_witness:
  "worker (heap admitted_state 0) = GAdmitted \<and> mu_readers admitted_state = 0 \<and>
   sem_len admitted_state = 1 \<and> sendq admitted_state = [] \<and>
   exec ([Worker 0 True, Worker 0 True, Tick 60, Worker 0 True, Worker 0 True, Worker 0 True])
     admitted_state \<noteq> None \<and>
   events (the (exec [Worker 0 True, Worker 0 True, Tick 60, Worker 0 True, Worker 0 True,
                      Worker 0 True] admitted_state))
     = [OnScheduled ''a'' 0, OnExecuted ''a'' 60] \<and>
   sem_len (the (exec [Worker 0 True, Worker 0 True, Tick 60, Worker 0 True, Worker 0 True,
                       Worker 0 True] admitted_state)) = 1"
proof -
  define ls where "ls = [Worker 0 True, Worker 0 True, Tick 60, Worker 0 True, Worker 0 True,
                      Worker 0 True]"
  have a: "worker (heap admitted_state 0) = GAdmitted" "mu_readers admitted_state = 0"
    "sem_len admitted_state = 1" "sendq admitted_state = []" "eid (heap admitted_state 0) = ''a''"
    "events admitted_state = [OnScheduled ''a'' 0]"
    by (simp_all add: admitted_state_def fire_def run_defs)
  have h: "semaphore admitted_state = None \<or> 0 < sem_len admitted_state"
    "0 \<notin> set (sendq admitted_state)"
    using a by simp_all
  from C9_execution_order [OF a(1,2) h, of True 60]
  obtain m1 m2 m3 m4 m5 where
    s: "step (Worker 0 True) admitted_state = Some m1" "step (Worker 0 True) m1 = Some m2"
      "exec [Tick 60, Worker 0 True] m2 = Some m3" "step (Worker 0 True) m3 = Some m4"
      "step (Worker 0 True) m4 = Some m5"
    and e: "events m5 = events admitted_state @ [OnExecuted (eid (heap admitted_state 0)) (int 60)]"
      "sem_len m5 = sem_len admitted_state"
    by blast
  have x: "exec ls admitted_state = Some m5"
    using s by (auto simp: ls_def split: option.splits)
  have 1: "exec ls admitted_state \<noteq> None" using x by simp
  have 2: "events (the (exec ls admitted_state)) = [OnScheduled ''a'' 0, OnExecuted ''a'' 60]"
    using x e(1) a(5,6) by simp
  have 3: "sem_len (the (exec ls admitted_state)) = 1" using x e(2) a(3) by simp
  show ?thesis using a(1,2,3,4) 1 2 3 unfolding ls_def by blast
qed

text \<open>
  The order the specification states (the slot released before the entry is removed
  and before \<open>OnExecuted\<close>) is not the order of the code: with a limit of one and the
  Drop policy, after \<open>OnExecuted\<close> has been called for task \<open>a\<close> and its entry is gone
  from the registry, the only slot is still held, and a task \<open>b\<close> that fires at this
  moment is dropped.
\<close>

theorem C9_counterexample:
  "exec executed_trace (NewManager [WithLimit 1 StrategyDrop]) = Some executed_state \<and>
   events executed_state = [OnScheduled ''a'' 0, OnExecuted ''a'' 0] \<and>
   pending executed_state = [] \<and>
   worker (heap executed_state 0) = GRelease \<and>
   sem_len executed_state = 1 \<and>
   map_option events
     (exec ([CallSchedule ''b'' 0 2] @ fire 1 @ [Worker 1 True, Worker 1 True]) executed_state)
     = Some [OnScheduled ''a'' 0, OnExecuted ''a'' 0, OnScheduled ''b'' 0,
             OnFailed ''b'' ErrTaskDropped]"
  by (simp add: executed_trace_def executed_state_def fire_def run_body_def null_entry_def
      run_defs)

end
